theory Spec2Isabelle
  imports Main "HOL-Library.Sublist" "HOL-Library.List_Lexorder" "HOL-Library.Char_ord"
    "HOL-Library.Multiset"
begin

section \<open>Python primitives used by the retrieval engine\<close>

text \<open>
  Strings are lists of characters; \<open>length\<close> counts characters as Python's \<open>len\<close>
  counts code points (the model covers code points below 256).  \<open>isspace\<close> is
  \<open>str.isspace\<close> on that range: TAB..CR, FS..US, space, NEL and NBSP.
\<close>

definition isspace :: "char \<Rightarrow> bool" where
  "isspace c = (let n = (of_char c :: nat) in
     (9 \<le> n \<and> n \<le> 13) \<or> (28 \<le> n \<and> n \<le> 32) \<or> n = 133 \<or> n = 160)"

text \<open>\<open>s.strip()\<close>: leading and trailing whitespace removed.\<close>

definition strip :: "string \<Rightarrow> string" where
  "strip s = rev (dropWhile isspace (rev (dropWhile isspace s)))"

text \<open>\<open>s.split()\<close> without arguments: the maximal runs of non-whitespace characters.\<close>

fun split_from :: "string \<Rightarrow> string \<Rightarrow> string list" where
  "split_from cur [] = (if cur = [] then [] else [cur])"
| "split_from cur (c # cs) =
     (if isspace c then (if cur = [] then split_from [] cs else cur # split_from [] cs)
      else split_from (cur @ [c]) cs)"

definition py_split :: "string \<Rightarrow> string list" where
  "py_split s = split_from [] s"

text \<open>\<open>sep.join(xs)\<close>.\<close>

fun str_join :: "string \<Rightarrow> string list \<Rightarrow> string" where
  "str_join sep [] = []"
| "str_join sep [x] = x"
| "str_join sep (x # y # ys) = x @ sep @ str_join sep (y # ys)"

text \<open>
  \<open>xs[i:j]\<close>: a negative bound counts from the end, every bound is clamped to
  \<open>0..len(xs)\<close>, and the slice is empty when the bounds cross.  Slicing never raises.
\<close>

definition slice_bound :: "nat \<Rightarrow> int \<Rightarrow> nat" where
  "slice_bound n i = (if i < 0 then nat (max (i + int n) 0) else min (nat i) n)"

definition py_slice :: "'a list \<Rightarrow> int \<Rightarrow> int \<Rightarrow> 'a list" where
  "py_slice xs i j =
     (let lo = slice_bound (length xs) i; hi = slice_bound (length xs) j
      in take (hi - lo) (drop lo xs))"

text \<open>\<open>str(n)\<close> for a non-negative integer, as the f-strings of the loader render it.\<close>

definition digit_char :: "nat \<Rightarrow> char" where
  "digit_char d = char_of (48 + d)"

function str_nat :: "nat \<Rightarrow> string" where
  "str_nat n = (if n < 10 then [digit_char n] else str_nat (n div 10) @ [digit_char (n mod 10)])"
  by pat_completeness auto
termination
  by (relation "measure id") auto

text \<open>
  Exceptions are values.  The repository raises \<open>ValueError\<close> with a message; the
  other constructors are the interpreter's own exceptions, the index library's failed
  assertion, and \<open>LibraryError\<close> for whatever the PDF reader raises.
\<close>

datatype error =
    ValueError string
  | AttributeError string
  | NameError string
  | AssertionError
  | IndexError
  | LibraryError string

section \<open>Chunking\<close>

text \<open>
  Both chunkers run a \<open>while start < n\<close> loop.  One pass through the loop body either
  leaves the loop (\<open>break\<close>) or goes on with a new start offset.  The loop may run
  forever for some configurations, so it is a partial function: \<open>None\<close> means that the
  call never returns a list (a run that appends a chunk on every pass ends only when the
  interpreter runs out of memory).  Each emitted chunk is recorded together with its window
  \<open>(start, end)\<close>; the list the source returns is the list of second components.
\<close>

type_synonym window = "int \<times> int"

datatype 'a loop_step = Break 'a | Continue int 'a

subsection \<open>\<open>rag_engine.simple_chunk\<close>: windows over the words of a text\<close>

definition words_step ::
  "string list \<Rightarrow> int \<Rightarrow> int \<Rightarrow> int \<Rightarrow> (window \<times> string) list
     \<Rightarrow> (window \<times> string) list loop_step" where
  "words_step words chunk_size overlap start chunks =
     (let n = int (length words);
          end = min (start + chunk_size) n;
          chunk = str_join '' '' (py_slice words start end);
          chunks' = (if strip chunk \<noteq> [] then chunks @ [((start, end), chunk)] else chunks)
      in if end = n then Break chunks'
         else Continue (max (end - overlap) 0) chunks')"

partial_function (option) words_loop ::
  "string list \<Rightarrow> int \<Rightarrow> int \<Rightarrow> int \<Rightarrow> (window \<times> string) list
     \<Rightarrow> (window \<times> string) list option" where
  "words_loop words chunk_size overlap start chunks =
     (if start < int (length words) then
        (case words_step words chunk_size overlap start chunks of
           Break r \<Rightarrow> Some r
         | Continue start' chunks' \<Rightarrow> words_loop words chunk_size overlap start' chunks')
      else Some chunks)"

declare words_loop.simps [code]

definition words_run :: "string \<Rightarrow> int \<Rightarrow> int \<Rightarrow> (window \<times> string) list option" where
  "words_run text chunk_size overlap = words_loop (py_split text) chunk_size overlap 0 []"

definition simple_chunk_words :: "string \<Rightarrow> int \<Rightarrow> int \<Rightarrow> (error + string list) option" where
  "simple_chunk_words text chunk_size overlap =
     map_option (\<lambda>r. Inr (map snd r)) (words_run text chunk_size overlap)"

definition words_windows :: "string \<Rightarrow> int \<Rightarrow> int \<Rightarrow> window list option" where
  "words_windows text chunk_size overlap = map_option (map fst) (words_run text chunk_size overlap)"

subsection \<open>\<open>pdf_loader.simple_chunk\<close>: windows over the characters of each page\<close>

record meta =
  source :: string
  page_no :: nat
  filename :: string

record page =
  page_id :: string
  page_text :: string
  page_metadata :: meta

record chunk =
  chunk_id :: string
  chunk_text :: string
  chunk_metadata :: meta

type_synonym chunk_state = "(window \<times> chunk) list \<times> nat"

definition page_step ::
  "page \<Rightarrow> int \<Rightarrow> int \<Rightarrow> int \<Rightarrow> chunk_state \<Rightarrow> chunk_state loop_step" where
  "page_step page chunk_size overlap start st =
     (let chunks = fst st; chunk_counter = snd st;
          text = page_text page; meta = page_metadata page;
          n = int (length text);
          end = min (start + chunk_size) n;
          ctext = strip (py_slice text start end)
      in if ctext = [] then Break (chunks, chunk_counter)
         else
           let cid = page_id page @ ''_c'' @ str_nat chunk_counter;
               chunks' = chunks @
                 [((start, end), \<lparr>chunk_id = cid, chunk_text = ctext, chunk_metadata = meta\<rparr>)];
               chunk_counter' = chunk_counter + 1
           in if end = n then Break (chunks', chunk_counter')
              else Continue (max 0 (end - overlap)) (chunks', chunk_counter'))"

partial_function (option) page_loop ::
  "page \<Rightarrow> int \<Rightarrow> int \<Rightarrow> int \<Rightarrow> chunk_state \<Rightarrow> chunk_state option" where
  "page_loop page chunk_size overlap start st =
     (if start < int (length (page_text page)) then
        (case page_step page chunk_size overlap start st of
           Break r \<Rightarrow> Some r
         | Continue start' st' \<Rightarrow> page_loop page chunk_size overlap start' st')
      else Some st)"

declare page_loop.simps [code]

text \<open>The \<open>for page in pages\<close> loop; the chunk counter runs on across pages.\<close>

fun pages_loop :: "page list \<Rightarrow> int \<Rightarrow> int \<Rightarrow> chunk_state \<Rightarrow> chunk_state option" where
  "pages_loop [] chunk_size overlap st = Some st"
| "pages_loop (p # ps) chunk_size overlap st =
     (case page_loop p chunk_size overlap 0 st of
        None \<Rightarrow> None
      | Some st' \<Rightarrow> pages_loop ps chunk_size overlap st')"

definition pages_run :: "page list \<Rightarrow> int \<Rightarrow> int \<Rightarrow> (window \<times> chunk) list option" where
  "pages_run pages chunk_size overlap = map_option fst (pages_loop pages chunk_size overlap ([], 0))"

definition simple_chunk_pages :: "page list \<Rightarrow> int \<Rightarrow> int \<Rightarrow> (error + chunk list) option" where
  "simple_chunk_pages pages chunk_size overlap =
     map_option (\<lambda>r. Inr (map snd r)) (pages_run pages chunk_size overlap)"

definition page_windows :: "page \<Rightarrow> int \<Rightarrow> int \<Rightarrow> window list option" where
  "page_windows p chunk_size overlap = map_option (map fst) (pages_run [p] chunk_size overlap)"

subsection \<open>\<open>autoresearcher.rag_engine.RAGEngine.chunk\<close>: disjoint runs of words\<close>

text \<open>
  \<open>range(0, n, step)\<close> for \<open>n = len(words) \<ge> 0\<close>: the multiples of \<open>step\<close> below \<open>n\<close>
  for a positive step, nothing for a negative one, and \<open>ValueError\<close> for step zero.
\<close>

definition py_range0 :: "int \<Rightarrow> int \<Rightarrow> error + int list" where
  "py_range0 n step =
     (if step = 0 then Inl (ValueError ''range() arg 3 must not be zero'')
      else if step < 0 then Inr []
      else Inr (filter (\<lambda>i. i mod step = 0) (map int [0..<nat n])))"

fun chunk_texts :: "string list \<Rightarrow> int \<Rightarrow> string list \<Rightarrow> error + string list" where
  "chunk_texts [] sz chunks = Inr chunks"
| "chunk_texts (text # texts) sz chunks =
     (let words = py_split text in
      case py_range0 (int (length words)) sz of
        Inl e \<Rightarrow> Inl e
      | Inr starts \<Rightarrow>
          chunk_texts texts sz
            (chunks @ map (\<lambda>i. str_join '' '' (py_slice words i (i + sz))) starts))"

definition RAGEngine_chunk :: "string list \<Rightarrow> int \<Rightarrow> error + string list" where
  "RAGEngine_chunk texts sz = chunk_texts texts sz []"

subsection \<open>Properties of a list of windows\<close>

text \<open>
  \<open>spaced\<close>: each window starts \<open>chunk_size - overlap\<close> after the one before and shares
  exactly \<open>overlap\<close> units with it.  \<open>covered\<close>: the offsets that lie in some window.
\<close>

fun spaced :: "int \<Rightarrow> int \<Rightarrow> window list \<Rightarrow> bool" where
  "spaced chunk_size overlap (a # b # rest) =
     (fst b = fst a + (chunk_size - overlap) \<and> snd a - fst b = overlap \<and>
      spaced chunk_size overlap (b # rest))"
| "spaced chunk_size overlap ws = True"

definition covered :: "window list \<Rightarrow> int set" where
  "covered ws = (\<Union>w\<in>set ws. {fst w..<snd w})"

text \<open>
  The window the character loop looks at from offset \<open>start\<close> is blank when its text is
  empty after \<open>strip\<close>.  Counting from \<open>start\<close>, pass \<open>j\<close> of the loop looks at offset
  \<open>start + j * (chunk_size - overlap)\<close>; as long as no window before was blank, the loop
  gets there when that offset is inside the text and no earlier window has reached the
  end of the text (after such a window the loop leaves at \<open>end == n\<close>).
  \<open>no_blank_window\<close> says that none of the windows the loop inspects is blank.
\<close>

definition window_blank :: "string \<Rightarrow> int \<Rightarrow> int \<Rightarrow> bool" where
  "window_blank text chunk_size start =
     (strip (py_slice text start (min (start + chunk_size) (int (length text)))) = [])"

definition inspects :: "string \<Rightarrow> int \<Rightarrow> int \<Rightarrow> int \<Rightarrow> nat \<Rightarrow> bool" where
  "inspects text chunk_size overlap start j =
     (start + int j * (chunk_size - overlap) < int (length text) \<and>
      (\<forall>i<j. start + int i * (chunk_size - overlap) + chunk_size < int (length text)))"

definition no_blank_window :: "string \<Rightarrow> int \<Rightarrow> int \<Rightarrow> int \<Rightarrow> bool" where
  "no_blank_window text chunk_size overlap start =
     (\<forall>j. inspects text chunk_size overlap start j \<longrightarrow>
        \<not> window_blank text chunk_size (start + int j * (chunk_size - overlap)))"

definition nonblank_words :: "string list \<Rightarrow> bool" where
  "nonblank_words ws = (\<forall>w\<in>set ws. w \<noteq> [] \<and> (\<forall>c\<in>set w. \<not> isspace c))"

text \<open>
  \<open>word_run_of c t\<close>: \<open>c\<close> is the single-space join of a non-empty contiguous run of the
  whitespace-separated words of \<open>t\<close>.
\<close>

definition word_run_of :: "string \<Rightarrow> string \<Rightarrow> bool" where
  "word_run_of c t = (\<exists>ws. ws \<noteq> [] \<and> sublist ws (py_split t) \<and> c = str_join '' '' ws)"

text \<open>The chunk dictionary the page loop appends for the window \<open>(s, e)\<close>.\<close>

definition mk_chunk :: "page \<Rightarrow> nat \<Rightarrow> int \<Rightarrow> int \<Rightarrow> window \<times> chunk" where
  "mk_chunk p k s e = ((s, e), \<lparr>chunk_id = page_id p @ ''_c'' @ str_nat k,
      chunk_text = strip (py_slice (page_text p) s e), chunk_metadata = page_metadata p\<rparr>)"

section \<open>The similarity index\<close>

text \<open>
  The index library is not part of the repository.  An \<open>IndexFlatL2\<close> is modelled by
  the list of vectors added to it, and \<open>index.search(q, k)\<close> by the library's documented
  contract: \<open>k\<close> must be positive (the Python wrapper asserts it), the labels of the
  \<open>k\<close> nearest vectors are returned in ascending distance, and when the index holds
  fewer than \<open>k\<close> vectors the missing labels are \<open>-1\<close>.  Only the labels are modelled:
  no caller in the repository reads the distance array.  The distance is a parameter
  with values in a linear order.
\<close>

definition faiss_search ::
  "('v \<Rightarrow> 'v \<Rightarrow> 'd::linorder) \<Rightarrow> 'v list \<Rightarrow> 'v \<Rightarrow> int \<Rightarrow> error + int list" where
  "faiss_search dist index q k =
     (if k \<le> 0 then Inl AssertionError
      else
        let ranked = sort_key (\<lambda>i. dist q (index ! i)) [0..<length index];
            top = take (nat k) ranked
        in Inr (map int top @ replicate (nat k - length top) (- 1)))"

text \<open>\<open>xs[i]\<close>: a negative index counts from the end; out of range raises \<open>IndexError\<close>.\<close>

definition py_index :: "'a list \<Rightarrow> int \<Rightarrow> error + 'a" where
  "py_index xs i =
     (let n = int (length xs); j = (if i < 0 then i + n else i)
      in if 0 \<le> j \<and> j < n then Inr (xs ! nat j) else Inl IndexError)"

text \<open>\<open>[xs[i] for i in labels]\<close>: the first failing lookup ends the comprehension.\<close>

fun py_index_all :: "'a list \<Rightarrow> int list \<Rightarrow> error + 'a list" where
  "py_index_all xs [] = Inr []"
| "py_index_all xs (i # rest) =
     (case py_index xs i of
        Inl e \<Rightarrow> Inl e
      | Inr x \<Rightarrow> (case py_index_all xs rest of Inl e \<Rightarrow> Inl e | Inr ys \<Rightarrow> Inr (x # ys)))"

section \<open>\<open>rag_engine.RAGEngine\<close>: registry and retrieval\<close>

record 'v collection =
  col_chunks :: "string list"
  col_index :: "'v list"
  col_embeddings :: "'v list"

type_synonym 'v registry = "string \<rightharpoonup> 'v collection"

definition context_sep :: string where
  "context_sep = ''\<newline>\<newline>---\<newline>\<newline>''"

definition query ::
  "(string \<Rightarrow> 'v) \<Rightarrow> ('v \<Rightarrow> 'v \<Rightarrow> 'd::linorder) \<Rightarrow> 'v registry \<Rightarrow> string \<Rightarrow> string \<Rightarrow> int
     \<Rightarrow> error + (string \<times> string list)" where
  "query encode dist indexes name question top_k =
     (case indexes name of
        None \<Rightarrow> Inl (ValueError (''Index '' @ [CHR 0x27] @ name @ [CHR 0x27] @
                      '' not found. Build it first.''))
      | Some data \<Rightarrow>
          (case faiss_search dist (col_index data) (encode question) top_k of
             Inl e \<Rightarrow> Inl e
           | Inr labels \<Rightarrow>
               let selected = map (\<lambda>idx. col_chunks data ! nat idx)
                     (filter (\<lambda>idx. 0 \<le> idx \<and> idx < int (length (col_chunks data))) labels)
               in Inr (str_join context_sep selected, selected)))"

section \<open>\<open>llm_client\<close>: the generation backend\<close>

text \<open>
  The HTTP call is the environment.  \<open>requests.post\<close> either raises (timeout, connection
  failure) or returns a response; \<open>raise_for_status\<close> raises for an error status; reading
  \<open>r.json().get("response", "").strip()\<close> raises for a body that is not a JSON object
  with a string there.  An exception is represented by its message \<open>str(e)\<close>.
\<close>

datatype body = BodyRaises string | BodyObject "string option"

record response =
  status_error :: "string option"
  body :: body

type_synonym backend = "string \<Rightarrow> string \<Rightarrow> string + response"

definition OLLAMA_MODEL_NAME :: string where
  "OLLAMA_MODEL_NAME = ''llama3.1:latest''"

text \<open>The body of the \<open>try\<close> block of \<open>call_ollama\<close>: \<open>Inl\<close> is the exception raised in it.\<close>

definition ollama_try :: "backend \<Rightarrow> string \<Rightarrow> string \<Rightarrow> string + string" where
  "ollama_try post prompt model =
     (case post model prompt of
        Inl e \<Rightarrow> Inl e
      | Inr r \<Rightarrow>
          (case status_error r of
             Some e \<Rightarrow> Inl e
           | None \<Rightarrow>
               (case body r of
                  BodyRaises e \<Rightarrow> Inl e
                | BodyObject None \<Rightarrow> Inr (strip [])
                | BodyObject (Some text) \<Rightarrow> Inr (strip text))))"

text \<open>\<open>except Exception as e: return f"[OLLAMA ERROR] {e}"\<close>.\<close>

definition call_ollama :: "backend \<Rightarrow> string \<Rightarrow> string \<Rightarrow> string" where
  "call_ollama post prompt model =
     (case ollama_try post prompt model of
        Inl e \<Rightarrow> ''[OLLAMA ERROR] '' @ e
      | Inr text \<Rightarrow> text)"

definition call_llm :: "backend \<Rightarrow> string list \<Rightarrow> error + string" where
  "call_llm post args =
     (case args of
        [] \<Rightarrow> Inl (ValueError ''call_llm expects 1 or 2 positional arguments.'')
      | [a] \<Rightarrow> Inr (call_ollama post a OLLAMA_MODEL_NAME)
      | a # b # rest \<Rightarrow> Inr (call_ollama post (a @ ''\<newline>\<newline>'' @ b) OLLAMA_MODEL_NAME))"

definition answer_prompt :: "string \<Rightarrow> string \<Rightarrow> string" where
  "answer_prompt question context =
     ''You are a precise research assistant.\<newline>\<newline>'' @
     ''You will answer the user'' @ [CHR 0x27] @ ''s question *only* using the context from the PDF chunks below.\<newline>'' @
     ''If something is not supported by the context, say you don'' @ [CHR 0x27] @ ''t know.\<newline>\<newline>'' @
     ''[QUESTION]\<newline>'' @ question @ ''\<newline>\<newline>'' @
     ''[CONTEXT]\<newline>'' @ context @ ''\<newline>\<newline>'' @
     ''Now provide a clear, detailed, well-structured answer grounded in this context.\<newline>''"

definition answer ::
  "(string \<Rightarrow> 'v) \<Rightarrow> ('v \<Rightarrow> 'v \<Rightarrow> 'd::linorder) \<Rightarrow> backend \<Rightarrow> 'v registry \<Rightarrow> string \<Rightarrow> string \<Rightarrow> int
     \<Rightarrow> error + string" where
  "answer encode dist post indexes name question top_k =
     (case query encode dist indexes name question top_k of
        Inl e \<Rightarrow> Inl e
      | Inr (context, selected) \<Rightarrow> call_llm post [answer_prompt question context])"

section \<open>The file system and the PDF reader\<close>

text \<open>
  The operating system and the PDF library are the environment: a file system answers
  \<open>os.path.isdir\<close>, \<open>os.listdir\<close> (in an order of its own choosing), \<open>os.path.isfile\<close>
  and \<open>os.path.abspath\<close>, and \<open>read_pdf\<close> gives what \<open>PdfReader(path).pages\<close> yields, or
  the exception the reader raises.  For each page \<open>extract_text()\<close> returns a string,
  returns \<open>None\<close>, or raises.
\<close>

datatype pdf_page = PageText string | PageNone | PageRaises error

record fs =
  isdir :: "string \<Rightarrow> bool"
  listdir :: "string \<Rightarrow> string list"
  isfile :: "string \<Rightarrow> bool"
  abspath :: "string \<Rightarrow> string"
  read_pdf :: "string \<Rightarrow> error + pdf_page list"

text \<open>\<open>str.lower\<close> on code points below 256, \<open>os.path.join\<close> and \<open>os.path.basename\<close> (POSIX).\<close>

definition lower_char :: "char \<Rightarrow> char" where
  "lower_char c = (let n = (of_char c :: nat) in
     if (65 \<le> n \<and> n \<le> 90) \<or> (192 \<le> n \<and> n \<le> 222 \<and> n \<noteq> 215) then char_of (n + 32) else c)"

definition py_lower :: "string \<Rightarrow> string" where
  "py_lower s = map lower_char s"

definition path_join :: "string \<Rightarrow> string \<Rightarrow> string" where
  "path_join a b =
     (if b \<noteq> [] \<and> hd b = CHR ''/'' then b
      else if a = [] \<or> last a = CHR ''/'' then a @ b
      else a @ ''/'' @ b)"

definition basename :: "string \<Rightarrow> string" where
  "basename p = rev (takeWhile (\<lambda>c. c \<noteq> CHR ''/'') (rev p))"

definition is_pdf_name :: "string \<Rightarrow> bool" where
  "is_pdf_name f = suffix ''.pdf'' (py_lower f)"

section \<open>\<open>autoresearcher.pdf_loader\<close>: listing and loading\<close>

definition list_pdfs :: "fs \<Rightarrow> string \<Rightarrow> error + string list" where
  "list_pdfs env folder0 =
     (let folder = abspath env folder0 in
      if \<not> isdir env folder then
        Inl (ValueError (''Folder does not exist or is not a directory: '' @ folder))
      else
        let pdfs = filter (isfile env)
              (map (path_join folder) (filter is_pdf_name (listdir env folder)))
        in Inr (sort pdfs))"

text \<open>The pages of one file, \<open>i\<close> counting from 0 as \<open>enumerate\<close> does.\<close>

fun load_pages :: "string \<Rightarrow> pdf_page list \<Rightarrow> nat \<Rightarrow> page list \<Rightarrow> error + page list" where
  "load_pages path [] i pages = Inr pages"
| "load_pages path (PageRaises e # rest) i pages = Inl e"
| "load_pages path (pg # rest) i pages =
     (let text = strip (case pg of PageText t \<Rightarrow> t | _ \<Rightarrow> [])
      in if text = [] then load_pages path rest (i + 1) pages
         else load_pages path rest (i + 1)
           (pages @ [\<lparr>page_id = basename path @ ''_p'' @ str_nat (i + 1), page_text = text,
               page_metadata = \<lparr>source = path, page_no = i + 1, filename = basename path\<rparr>\<rparr>]))"

fun load_paths :: "fs \<Rightarrow> string list \<Rightarrow> page list \<Rightarrow> error + page list" where
  "load_paths env [] pages = Inr pages"
| "load_paths env (path # rest) pages =
     (case read_pdf env path of
        Inl e \<Rightarrow> Inl e
      | Inr pgs \<Rightarrow>
          (case load_pages path pgs 0 pages of
             Inl e \<Rightarrow> Inl e
           | Inr pages' \<Rightarrow> load_paths env rest pages'))"

definition load_pdfs :: "fs \<Rightarrow> string \<Rightarrow> error + page list" where
  "load_pdfs env folder =
     (case list_pdfs env folder of
        Inl e \<Rightarrow> Inl e
      | Inr pdf_paths \<Rightarrow>
          if pdf_paths = [] then Inl (ValueError (''No PDFs found in folder: '' @ folder))
          else load_paths env pdf_paths [])"

definition load_pdfs_from_folder :: "fs \<Rightarrow> string \<Rightarrow> error + page list" where
  "load_pdfs_from_folder env folder = load_pdfs env folder"

section \<open>\<open>autoresearcher.vector_store\<close> and \<open>autoresearcher.orchestrator\<close>\<close>

record 'v vector_store =
  vs_index :: "'v list option"
  vs_texts :: "chunk list"

text \<open>
  \<open>VectorStore.build\<close>: \<open>embeddings.shape[1]\<close> raises \<open>IndexError\<close> on the one-dimensional
  empty array that no chunks give.
\<close>

definition vs_build :: "(chunk \<Rightarrow> 'v) \<Rightarrow> chunk list \<Rightarrow> error + 'v vector_store" where
  "vs_build encode chunks =
     (if chunks = [] then Inl IndexError
      else Inr \<lparr>vs_index = Some (map encode chunks), vs_texts = chunks\<rparr>)"

definition vs_search ::
  "(string \<Rightarrow> 'v) \<Rightarrow> ('v \<Rightarrow> 'v \<Rightarrow> 'd::linorder) \<Rightarrow> 'v vector_store \<Rightarrow> string \<Rightarrow> int
     \<Rightarrow> error + chunk list" where
  "vs_search encode dist store q top_k =
     (case vs_index store of
        None \<Rightarrow> Inl (ValueError ''Index not built.'')
      | Some index \<Rightarrow>
          (case faiss_search dist index (encode q) top_k of
             Inl e \<Rightarrow> Inl e
           | Inr labels \<Rightarrow> py_index_all (vs_texts store) labels))"

record 'v researcher =
  ar_indexes :: "string \<rightharpoonup> bool"
  ar_vectorstores :: "string \<rightharpoonup> 'v vector_store"

text \<open>
  \<open>AutoResearcher.build_index\<close> returns \<open>None\<close>; the model returns the outcome together
  with the object's state after the call.  The chunker runs with its defaults
  \<open>chunk_size = 800\<close>, \<open>overlap = 100\<close>.
\<close>

definition ar_build_index ::
  "fs \<Rightarrow> (chunk \<Rightarrow> 'v) \<Rightarrow> 'v researcher \<Rightarrow> string \<Rightarrow> string
     \<Rightarrow> ((error + unit) \<times> 'v researcher) option" where
  "ar_build_index env encode self name folder =
     (case load_pdfs_from_folder env folder of
        Inl e \<Rightarrow> Some (Inl e, self)
      | Inr pages \<Rightarrow>
          if pages = [] then Some (Inl (ValueError ''No PDF pages extracted.''), self)
          else
            (case simple_chunk_pages pages 800 100 of
               None \<Rightarrow> None
             | Some (Inl e) \<Rightarrow> Some (Inl e, self)
             | Some (Inr chunks) \<Rightarrow>
                 if chunks = [] then Some (Inl (ValueError ''No text chunks created.''), self)
                 else
                   (case vs_build encode chunks of
                      Inl e \<Rightarrow> Some (Inl e, self)
                    | Inr store \<Rightarrow>
                        Some (Inr (),
                          self\<lparr>ar_indexes := (ar_indexes self)(name \<mapsto> True),
                               ar_vectorstores := (ar_vectorstores self)(name \<mapsto> store)\<rparr>))))"

text \<open>
  \<open>AutoResearcher.answer(query, index_name)\<close>.  After the registry check and
  \<open>store = self.vectorstores[index_name]\<close> the body evaluates \<open>self.vector_store\<close>.
  \<open>__init__\<close> sets the attributes \<open>indexes\<close>, \<open>vectorstores\<close> and \<open>llm\<close>, and the class
  defines \<open>index_exists\<close>, \<open>build_index\<close> and \<open>answer\<close>: the lookup raises
  \<open>AttributeError\<close> before the argument \<open>question\<close> (a name bound nowhere) is evaluated,
  and nothing after it runs.
\<close>

definition AutoResearcher_attributes :: "string list" where
  "AutoResearcher_attributes =
     [''indexes'', ''vectorstores'', ''llm'', ''index_exists'', ''build_index'', ''answer'']"

definition getattr :: "string \<Rightarrow> error + unit" where
  "getattr attr =
     (if attr \<in> set AutoResearcher_attributes then Inr ()
      else Inl (AttributeError attr))"

definition ar_answer :: "'v researcher \<Rightarrow> string \<Rightarrow> string \<Rightarrow> error + string" where
  "ar_answer self q index_name =
     (if index_name \<notin> dom (ar_vectorstores self) then Inl (ValueError ''Index not found.'')
      else
        (case getattr ''vector_store'' of
           Inl e \<Rightarrow> Inl e
         | Inr u \<Rightarrow> Inl (NameError ''question'')))"



section \<open>\<open>rag_engine.RAGEngine\<close>: building an index\<close>

definition rag_list_pdfs :: "fs \<Rightarrow> string \<Rightarrow> string list" where
  "rag_list_pdfs env folder = map (path_join folder) (filter is_pdf_name (listdir env folder))"

text \<open>\<open>load_pdf_text\<close>: a page whose extraction raises or gives \<open>None\<close> counts as empty.\<close>

definition load_pdf_text :: "fs \<Rightarrow> string \<Rightarrow> error + string" where
  "load_pdf_text env path =
     (case read_pdf env path of
        Inl e \<Rightarrow> Inl e
      | Inr pgs \<Rightarrow>
          Inr (str_join ''\<newline>'' (map (\<lambda>pg. case pg of PageText t \<Rightarrow> t | _ \<Rightarrow> []) pgs)))"

text \<open>The loop over the files; the chunker runs with its defaults 800 and 200.\<close>

fun gather_chunks :: "fs \<Rightarrow> string list \<Rightarrow> string list \<Rightarrow> (error + string list) option" where
  "gather_chunks env [] all_chunks = Some (Inr all_chunks)"
| "gather_chunks env (path # rest) all_chunks =
     (case load_pdf_text env path of
        Inl e \<Rightarrow> Some (Inl e)
      | Inr text \<Rightarrow>
          (case simple_chunk_words text 800 200 of
             None \<Rightarrow> None
           | Some (Inl e) \<Rightarrow> Some (Inl e)
           | Some (Inr chunks) \<Rightarrow> gather_chunks env rest (all_chunks @ chunks)))"

definition build_index ::
  "fs \<Rightarrow> (string \<Rightarrow> 'v) \<Rightarrow> 'v registry \<Rightarrow> string \<Rightarrow> string
     \<Rightarrow> ((error + nat) \<times> 'v registry) option" where
  "build_index env encode indexes name folder =
     (if \<not> isdir env folder then
        Some (Inl (ValueError (''Folder does not exist: '' @ folder)), indexes)
      else
        let pdfs = rag_list_pdfs env folder in
        if pdfs = [] then Some (Inl (ValueError (''No PDFs found in folder: '' @ folder)), indexes)
        else
          (case gather_chunks env pdfs [] of
             None \<Rightarrow> None
           | Some (Inl e) \<Rightarrow> Some (Inl e, indexes)
           | Some (Inr all_chunks) \<Rightarrow>
               if all_chunks = [] then
                 Some (Inl (ValueError ''No text chunks extracted from PDFs.''), indexes)
               else
                 let embeddings = map encode all_chunks in
                 Some (Inr (length all_chunks),
                   indexes(name \<mapsto> \<lparr>col_chunks = all_chunks, col_index = embeddings,
                                      col_embeddings = embeddings\<rparr>))))"

definition has_index :: "'v registry \<Rightarrow> string \<Rightarrow> bool" where
  "has_index indexes name = (name \<in> dom indexes)"

section \<open>Sample inputs\<close>

definition demo_page :: page where
  "demo_page = \<lparr>page_id = ''d.pdf_p1'', page_text = ''ab cd'',
     page_metadata = \<lparr>source = ''/docs/d.pdf'', page_no = 1, filename = ''d.pdf''\<rparr>\<rparr>"

definition gap_page :: page where
  "gap_page = \<lparr>page_id = ''g.pdf_p1'', page_text = ''a    b'',
     page_metadata = \<lparr>source = ''/docs/g.pdf'', page_no = 1, filename = ''g.pdf''\<rparr>\<rparr>"

definition trailing_page :: page where
  "trailing_page = \<lparr>page_id = ''t.pdf_p1'', page_text = ''abc d '',
     page_metadata = \<lparr>source = ''/docs/t.pdf'', page_no = 1, filename = ''t.pdf''\<rparr>\<rparr>"

definition blank_page :: page where
  "blank_page = \<lparr>page_id = ''d.pdf_p2'', page_text = '' \<newline>  '',
     page_metadata = \<lparr>source = ''/docs/d.pdf'', page_no = 2, filename = ''d.pdf''\<rparr>\<rparr>"

definition demo_chunks :: "chunk list" where
  "demo_chunks =
    [\<lparr>chunk_id = ''d.pdf_p1_c0'', chunk_text = ''ab'',
       chunk_metadata = \<lparr>source = ''/docs/d.pdf'', page_no = 1, filename = ''d.pdf''\<rparr>\<rparr>,
     \<lparr>chunk_id = ''d.pdf_p1_c1'', chunk_text = ''cd'',
       chunk_metadata = \<lparr>source = ''/docs/d.pdf'', page_no = 1, filename = ''d.pdf''\<rparr>\<rparr>]"

definition demo_fs :: fs where
  "demo_fs = \<lparr>
     isdir = (\<lambda>d. d = ''/docs'' \<or> d = ''/empty''),
     listdir = (\<lambda>d. if d = ''/docs'' then [''b.pdf'', ''notes.txt'', ''a.PDF''] else []),
     isfile = (\<lambda>p. True),
     abspath = (\<lambda>p. p),
     read_pdf = (\<lambda>p.
       if p = ''/docs/a.PDF'' then Inr [PageText ''Cats are mammals.'', PageText ''  '']
       else if p = ''/docs/b.pdf'' then Inr [PageNone, PageText ''Dogs are mammals too.'']
       else Inl (LibraryError ''cannot read''))\<rparr>"

definition pets_pages :: "page list" where
  "pets_pages =
    [\<lparr>page_id = ''a.PDF_p1'', page_text = ''Cats are mammals.'',
       page_metadata = \<lparr>source = ''/docs/a.PDF'', page_no = 1, filename = ''a.PDF''\<rparr>\<rparr>,
     \<lparr>page_id = ''b.pdf_p2'', page_text = ''Dogs are mammals too.'',
       page_metadata = \<lparr>source = ''/docs/b.pdf'', page_no = 2, filename = ''b.pdf''\<rparr>\<rparr>]"

definition demo_dist :: "nat \<Rightarrow> nat \<Rightarrow> nat" where
  "demo_dist a b = (if a \<le> b then b - a else a - b)"

definition demo_chunk_encode :: "chunk \<Rightarrow> nat" where
  "demo_chunk_encode c = length (chunk_text c)"

definition empty_researcher :: "nat researcher" where
  "empty_researcher = \<lparr>ar_indexes = Map.empty, ar_vectorstores = Map.empty\<rparr>"

definition pets_chunks :: "chunk list" where
  "pets_chunks =
    [\<lparr>chunk_id = ''a.PDF_p1_c0'', chunk_text = ''Cats are mammals.'',
       chunk_metadata = \<lparr>source = ''/docs/a.PDF'', page_no = 1, filename = ''a.PDF''\<rparr>\<rparr>,
     \<lparr>chunk_id = ''b.pdf_p2_c1'', chunk_text = ''Dogs are mammals too.'',
       chunk_metadata = \<lparr>source = ''/docs/b.pdf'', page_no = 2, filename = ''b.pdf''\<rparr>\<rparr>]"

definition pets_store :: "nat vector_store" where
  "pets_store = \<lparr>vs_index = Some [17, 21], vs_texts = pets_chunks\<rparr>"

definition pets_researcher :: "nat researcher" where
  "pets_researcher = \<lparr>ar_indexes = [''pets'' \<mapsto> True], ar_vectorstores = [''pets'' \<mapsto> pets_store]\<rparr>"

definition pets_registry :: "nat registry" where
  "pets_registry = [''pets'' \<mapsto> \<lparr>col_chunks = [''Dogs are mammals too.'', ''Cats are mammals.''],
      col_index = [21, 17], col_embeddings = [21, 17]\<rparr>]"


definition failing_backend :: backend where
  "failing_backend model prompt = Inl ''HTTPConnectionPool: Read timed out.''"

definition http_500_backend :: backend where
  "http_500_backend model prompt =
     Inr \<lparr>status_error = Some ''500 Server Error'', body = BodyObject None\<rparr>"


definition blank_fs :: fs where
  "blank_fs = \<lparr>
     isdir = (\<lambda>d. d = ''/docs''),
     listdir = (\<lambda>d. if d = ''/docs'' then [''x.pdf''] else []),
     isfile = (\<lambda>p. True),
     abspath = (\<lambda>p. p),
     read_pdf = (\<lambda>p. Inr [PageText ''  '', PageNone])\<rparr>"


section \<open>Facts about the primitives\<close>

lemma strip_Nil_iff: "strip s = [] \<longleftrightarrow> (\<forall>c\<in>set s. isspace c)"
proof -
  have "strip s = [] \<longleftrightarrow> (\<forall>c\<in>set (dropWhile isspace s). isspace c)"
    by (simp add: strip_def dropWhile_eq_Nil_conv)
  also have "\<dots> \<longleftrightarrow> (\<forall>c\<in>set s. isspace c)"
  proof
    assume a: "\<forall>c\<in>set (dropWhile isspace s). isspace c"
    have "set s = set (takeWhile isspace s) \<union> set (dropWhile isspace s)"
      using set_append [of "takeWhile isspace s" "dropWhile isspace s"] by simp
    then show "\<forall>c\<in>set s. isspace c"
      using a by (auto dest: set_takeWhileD)
  next
    assume "\<forall>c\<in>set s. isspace c"
    then show "\<forall>c\<in>set (dropWhile isspace s). isspace c"
      by (auto dest: set_dropWhileD)
  qed
  finally show ?thesis .
qed

lemma sublist_strip: "sublist (strip s) s"
proof -
  have "sublist (rev (dropWhile isspace (rev (dropWhile isspace s)))) (dropWhile isspace s)"
    unfolding sublist_rev_left by (rule sublist_dropWhile)
  then show ?thesis
    unfolding strip_def by (rule sublist_order.order_trans) (rule sublist_dropWhile)
qed

lemma sublist_py_slice: "sublist (py_slice xs i j) xs"
  unfolding py_slice_def Let_def
  by (rule sublist_order.order_trans [OF sublist_take sublist_drop])

lemma py_slice_nat:
  "0 \<le> i \<Longrightarrow> i \<le> j \<Longrightarrow> j \<le> int (length xs) \<Longrightarrow>
   py_slice xs i j = take (nat j - nat i) (drop (nat i) xs)"
  by (simp add: py_slice_def slice_bound_def Let_def min_def)

lemma split_from_words:
  "(\<forall>c\<in>set cur. \<not> isspace c) \<Longrightarrow> w \<in> set (split_from cur s) \<Longrightarrow>
   w \<noteq> [] \<and> (\<forall>c\<in>set w. \<not> isspace c)"
proof (induction s arbitrary: cur)
  case Nil
  then show ?case by (simp split: if_splits)
next
  case (Cons c cs)
  show ?case
  proof (cases "isspace c")
    case True
    with Cons.prems Cons.IH [of "[]"] show ?thesis
      by (cases "cur = []") auto
  next
    case False
    with Cons.prems Cons.IH [of "cur @ [c]"] show ?thesis by simp
  qed
qed

lemma py_split_words: "w \<in> set (py_split s) \<Longrightarrow> w \<noteq> [] \<and> (\<forall>c\<in>set w. \<not> isspace c)"
  unfolding py_split_def using split_from_words [of "[]" w s] by simp

lemma split_from_blank: "\<forall>c\<in>set s. isspace c \<Longrightarrow> split_from [] s = []"
  by (induction s) simp_all

lemma str_join_nonblank:
  assumes a: "ws \<noteq> []" and b: "\<forall>w\<in>set ws. w \<noteq> [] \<and> (\<forall>c\<in>set w. \<not> isspace c)"
  shows "strip (str_join sep ws) \<noteq> []"
proof -
  from a obtain w rest where ws: "ws = w # rest" by (cases ws) auto
  have "set w \<subseteq> set (str_join sep ws)"
    unfolding ws by (cases rest) auto
  moreover from b ws obtain c where "c \<in> set w" "\<not> isspace c"
    by (cases w) auto
  ultimately show ?thesis by (auto simp: strip_Nil_iff)
qed

section \<open>The chunking loops\<close>

lemma spaced_Cons:
  "spaced cs ov (a # ws) \<longleftrightarrow>
     (ws \<noteq> [] \<longrightarrow> fst (hd ws) = fst a + (cs - ov) \<and> snd a - fst (hd ws) = ov) \<and> spaced cs ov ws"
  by (cases ws) auto

lemma covered_Cons: "covered (w # ws) = {fst w..<snd w} \<union> covered ws"
  by (simp add: covered_def)

lemma covered_Nil: "covered [] = {}"
  by (simp add: covered_def)

lemma words_step_valid:
  assumes ov: "0 \<le> ov" "ov < cs" and st: "0 \<le> start" "start < int (length words)"
    and nb: "nonblank_words words"
  shows "words_step words cs ov start acc =
     (let e = min (start + cs) (int (length words));
          acc' = acc @ [((start, e), str_join '' '' (py_slice words start e))]
      in if e = int (length words) then Break acc' else Continue (start + cs - ov) acc')"
proof -
  define e where "e = min (start + cs) (int (length words))"
  have e: "start < e" "e \<le> int (length words)" using ov st by (auto simp: e_def)
  have sl: "py_slice words start e = take (nat e - nat start) (drop (nat start) words)"
    using st e by (intro py_slice_nat) auto
  have "py_slice words start e \<noteq> []" using st e unfolding sl by auto
  moreover have "set (py_slice words start e) \<subseteq> set words"
    unfolding sl by (meson set_drop_subset set_take_subset subset_trans)
  ultimately have "strip (str_join '' '' (py_slice words start e)) \<noteq> []"
    using nb by (intro str_join_nonblank) (auto simp: nonblank_words_def)
  moreover have "e \<noteq> int (length words) \<Longrightarrow> max (e - ov) 0 = start + cs - ov"
    using ov st by (auto simp: e_def min_def)
  ultimately show ?thesis
    unfolding words_step_def Let_def e_def [symmetric] by auto
qed

lemma words_loop_inv:
  assumes ov: "0 \<le> ov" "ov < cs" and nb: "nonblank_words words"
  shows "0 \<le> start \<Longrightarrow> start < int (length words) \<Longrightarrow>
    \<exists>ws. words_loop words cs ov start acc = Some (acc @ ws) \<and> ws \<noteq> [] \<and>
      fst (fst (hd ws)) = start \<and> spaced cs ov (map fst ws) \<and>
      covered (map fst ws) = {start..<int (length words)} \<and>
      (\<forall>x\<in>set ws. snd x = str_join '' '' (py_slice words (fst (fst x)) (snd (fst x))) \<and>
          start \<le> fst (fst x) \<and> fst (fst x) < snd (fst x) \<and> snd (fst x) \<le> int (length words))"
proof (induction "nat (int (length words) - start)" arbitrary: start acc rule: less_induct)
  case less
  define n where "n = int (length words)"
  define e where "e = min (start + cs) n"
  define c where "c = str_join '' '' (py_slice words start e)"
  have e: "start < e" "e \<le> n" using ov less.prems by (auto simp: e_def n_def)
  have step: "words_step words cs ov start acc =
      (if e = n then Break (acc @ [((start, e), c)]) else Continue (start + cs - ov) (acc @ [((start, e), c)]))"
    using words_step_valid [OF ov less.prems nb, of acc] by (simp add: Let_def e_def n_def c_def)
  show ?case
  proof (cases "e = n")
    case True
    have "words_loop words cs ov start acc = Some (acc @ [((start, e), c)])"
      using less.prems step True by (subst words_loop.simps) (simp add: n_def)
    then show ?thesis
      using True e less.prems by (intro exI [of _ "[((start, e), c)]"]) (simp add: covered_def n_def c_def)
  next
    case False
    define s' where "s' = start + cs - ov"
    have s': "start < s'" "s' \<le> e" "s' < n" "e = start + cs"
      using False e ov by (auto simp: s'_def e_def min_def split: if_splits)
    have unf: "words_loop words cs ov start acc = words_loop words cs ov s' (acc @ [((start, e), c)])"
      using less.prems step False by (subst words_loop.simps) (simp add: n_def s'_def)
    have "nat (int (length words) - s') < nat (int (length words) - start)"
      using s' less.prems by (simp add: n_def)
    from less.hyps [OF this, of "acc @ [((start, e), c)]"] s' less.prems
    obtain ws where ws: "words_loop words cs ov s' (acc @ [((start, e), c)]) = Some ((acc @ [((start, e), c)]) @ ws)"
      "ws \<noteq> []" "fst (fst (hd ws)) = s'" "spaced cs ov (map fst ws)"
      "covered (map fst ws) = {s'..<n}"
      "\<forall>x\<in>set ws. snd x = str_join '' '' (py_slice words (fst (fst x)) (snd (fst x))) \<and>
          s' \<le> fst (fst x) \<and> fst (fst x) < snd (fst x) \<and> snd (fst x) \<le> n"
      unfolding n_def by auto
    have cov: "{start..<e} \<union> {s'..<n} = {start..<n}"
      using s' e by auto
    show ?thesis
    proof (intro exI [of _ "((start, e), c) # ws"] conjI)
      show "words_loop words cs ov start acc = Some (acc @ ((start, e), c) # ws)"
        using unf ws(1) by simp
      show "spaced cs ov (map fst (((start, e), c) # ws))"
        using ws(2,3,4) s' by (simp add: spaced_Cons hd_map s'_def)
      show "covered (map fst (((start, e), c) # ws)) = {start..<int (length words)}"
        using ws(5) cov by (simp add: covered_Cons n_def)
      show "\<forall>x\<in>set (((start, e), c) # ws). snd x = str_join '' '' (py_slice words (fst (fst x)) (snd (fst x))) \<and>
          start \<le> fst (fst x) \<and> fst (fst x) < snd (fst x) \<and> snd (fst x) \<le> int (length words)"
        using ws(6) s' e by (auto simp: c_def n_def)
    qed simp_all
  qed
qed

lemma page_step_eq:
  "page_step p cs ov start (acc, k) =
     (let e = min (start + cs) (int (length (page_text p))) in
      if window_blank (page_text p) cs start then Break (acc, k)
      else if e = int (length (page_text p)) then Break (acc @ [mk_chunk p k start e], Suc k)
      else Continue (max 0 (e - ov)) (acc @ [mk_chunk p k start e], Suc k))"
  by (simp add: page_step_def Let_def window_blank_def mk_chunk_def)

lemma no_blank_window_first:
  "no_blank_window text cs ov start \<Longrightarrow> start < int (length text) \<Longrightarrow>
   \<not> window_blank text cs start"
  unfolding no_blank_window_def inspects_def by (erule allE [of _ 0]) simp

lemma inspects_Suc:
  "inspects text cs ov start (Suc j) \<longleftrightarrow>
     start + cs < int (length text) \<and> inspects text cs ov (start + cs - ov) j"
proof -
  have off: "\<And>i. start + cs - ov + int i * (cs - ov) = start + int (Suc i) * (cs - ov)"
    by (simp add: algebra_simps)
  have "(\<forall>i<Suc j. start + int i * (cs - ov) + cs < int (length text)) \<longleftrightarrow>
      start + cs < int (length text) \<and>
      (\<forall>i<j. start + int (Suc i) * (cs - ov) + cs < int (length text))"
    by (simp add: All_less_Suc2 del: of_nat_Suc)
  then show ?thesis
    unfolding inspects_def off by blast
qed

lemma no_blank_window_next:
  assumes "no_blank_window text cs ov start" and "start + cs < int (length text)"
  shows "no_blank_window text cs ov (start + cs - ov)"
  unfolding no_blank_window_def
proof (intro allI impI)
  fix j
  assume "inspects text cs ov (start + cs - ov) j"
  with assms(2) have "inspects text cs ov start (Suc j)" by (simp add: inspects_Suc)
  with assms(1) have nb: "\<not> window_blank text cs (start + int (Suc j) * (cs - ov))"
    unfolding no_blank_window_def by blast
  have eq: "start + cs - ov + int j * (cs - ov) = start + int (Suc j) * (cs - ov)"
    by (simp add: algebra_simps)
  show "\<not> window_blank text cs (start + cs - ov + int j * (cs - ov))"
    unfolding eq by (rule nb)
qed

lemma no_blank_window_step:
  assumes "\<not> window_blank text cs start"
    and "start + cs < int (length text) \<Longrightarrow> no_blank_window text cs ov (start + cs - ov)"
  shows "no_blank_window text cs ov start"
  unfolding no_blank_window_def
proof (intro allI impI)
  fix j
  assume a: "inspects text cs ov start j"
  show "\<not> window_blank text cs (start + int j * (cs - ov))"
  proof (cases j)
    case 0
    with assms(1) show ?thesis by simp
  next
    case (Suc k)
    with a have "start + cs < int (length text)" "inspects text cs ov (start + cs - ov) k"
      by (simp_all add: inspects_Suc)
    with assms(2) have nb: "\<not> window_blank text cs (start + cs - ov + int k * (cs - ov))"
      unfolding no_blank_window_def by blast
    have eq: "start + cs - ov + int k * (cs - ov) = start + int (Suc k) * (cs - ov)"
      by (simp add: algebra_simps)
    show ?thesis
      unfolding Suc eq [symmetric] by (rule nb)
  qed
qed

lemma page_loop_inv:
  assumes ov: "0 \<le> ov" "ov < cs"
  shows "0 \<le> start \<Longrightarrow>
    \<exists>ws. page_loop p cs ov start (acc, k) = Some (acc @ ws, k + length ws) \<and>
      spaced cs ov (map fst ws) \<and>
      (ws \<noteq> [] \<longrightarrow> fst (fst (hd ws)) = start \<and>
          covered (map fst ws) = {start..<snd (fst (last ws))}) \<and>
      (\<forall>x\<in>set ws. start \<le> fst (fst x) \<and>
          snd (fst x) = min (fst (fst x) + cs) (int (length (page_text p)))) \<and>
      (start < int (length (page_text p)) \<longrightarrow>
         (no_blank_window (page_text p) cs ov start \<longleftrightarrow>
            ws \<noteq> [] \<and> snd (fst (last ws)) = int (length (page_text p))))"
proof (induction "nat (int (length (page_text p)) - start)" arbitrary: start acc k rule: less_induct)
  case less
  define n where "n = int (length (page_text p))"
  define e where "e = min (start + cs) n"
  show ?case
  proof (cases "start < n")
    case False
    then have "page_loop p cs ov start (acc, k) = Some (acc, k)"
      by (subst page_loop.simps) (simp add: n_def)
    then show ?thesis using False by (intro exI [of _ "[]"]) (simp add: n_def)
  next
    case lt: True
    have e: "start < e" "e \<le> n" using ov lt by (auto simp: e_def)
    show ?thesis
    proof (cases "window_blank (page_text p) cs start")
      case True
      then have "page_loop p cs ov start (acc, k) = Some (acc, k)"
        using lt by (subst page_loop.simps) (simp add: n_def page_step_eq)
      moreover have "\<not> no_blank_window (page_text p) cs ov start"
        using True lt no_blank_window_first [of "page_text p" cs ov start] by (auto simp: n_def)
      ultimately show ?thesis by (intro exI [of _ "[]"]) simp
    next
      case nb: False
      define w where "w = mk_chunk p k start e"
      have fw: "fst w = (start, e)" by (simp add: w_def mk_chunk_def)
      show ?thesis
      proof (cases "e = n")
        case True
        have "page_loop p cs ov start (acc, k) = Some (acc @ [w], Suc k)"
          using lt nb True
          by (subst page_loop.simps) (simp add: n_def page_step_eq e_def w_def)
        moreover have "no_blank_window (page_text p) cs ov start"
        proof (rule no_blank_window_step)
          show "\<not> window_blank (page_text p) cs start" by (rule nb)
        next
          assume "start + cs < int (length (page_text p))"
          with True have False by (simp add: e_def n_def)
          then show "no_blank_window (page_text p) cs ov (start + cs - ov)" ..
        qed
        ultimately show ?thesis
          using True e by (intro exI [of _ "[w]"]) (simp add: fw covered_def n_def e_def)
      next
        case False
        define s' where "s' = start + cs - ov"
        have s': "start < s'" "s' \<le> e" "s' < n" "e = start + cs" "max 0 (e - ov) = s'"
          using False e ov less.prems by (auto simp: s'_def e_def min_def split: if_splits)
        have unf: "page_loop p cs ov start (acc, k) = page_loop p cs ov s' (acc @ [w], Suc k)"
          using lt nb False s'(5)
          by (subst page_loop.simps) (simp add: n_def [symmetric] page_step_eq e_def [symmetric] w_def)
        have dec: "nat (int (length (page_text p)) - s') < nat (int (length (page_text p)) - start)"
          using s' lt by (simp add: n_def)
        have pos: "0 \<le> s'" using s'(1) less.prems by simp
        from less.hyps [OF dec pos, of "acc @ [w]" "Suc k"]
        obtain ws where wsall:
          "page_loop p cs ov s' (acc @ [w], Suc k) = Some ((acc @ [w]) @ ws, Suc k + length ws) \<and>
           spaced cs ov (map fst ws) \<and>
           (ws \<noteq> [] \<longrightarrow> fst (fst (hd ws)) = s' \<and>
               covered (map fst ws) = {s'..<snd (fst (last ws))}) \<and>
           (\<forall>x\<in>set ws. s' \<le> fst (fst x) \<and>
               snd (fst x) = min (fst (fst x) + cs) (int (length (page_text p)))) \<and>
           (s' < int (length (page_text p)) \<longrightarrow>
              (no_blank_window (page_text p) cs ov s' \<longleftrightarrow>
                 ws \<noteq> [] \<and> snd (fst (last ws)) = int (length (page_text p))))" ..
        from wsall have ws:
          "page_loop p cs ov s' (acc @ [w], Suc k) = Some ((acc @ [w]) @ ws, Suc k + length ws)"
          "spaced cs ov (map fst ws)"
          "ws \<noteq> [] \<longrightarrow> fst (fst (hd ws)) = s' \<and> covered (map fst ws) = {s'..<snd (fst (last ws))}"
          "\<forall>x\<in>set ws. s' \<le> fst (fst x) \<and> snd (fst x) = min (fst (fst x) + cs) n"
          "s' < n \<longrightarrow>
             (no_blank_window (page_text p) cs ov s' \<longleftrightarrow> ws \<noteq> [] \<and> snd (fst (last ws)) = n)"
          unfolding n_def by blast+
        have last_ge: "e \<le> snd (fst (last ws))" if "ws \<noteq> []"
        proof -
          from that have "last ws \<in> set ws" by simp
          with ws(4) have "s' \<le> fst (fst (last ws))"
            "snd (fst (last ws)) = min (fst (fst (last ws)) + cs) n" by auto
          then show ?thesis using s' e by auto
        qed
        show ?thesis
        proof (intro exI [of _ "w # ws"] conjI)
          show "page_loop p cs ov start (acc, k) = Some (acc @ w # ws, k + length (w # ws))"
            using unf ws(1) by simp
          show "spaced cs ov (map fst (w # ws))"
            using ws(2,3) s' by (simp add: spaced_Cons hd_map fw s'_def)
          show "w # ws \<noteq> [] \<longrightarrow> fst (fst (hd (w # ws))) = start \<and>
              covered (map fst (w # ws)) = {start..<snd (fst (last (w # ws)))}"
          proof (cases "ws = []")
            case True
            then show ?thesis by (simp add: fw covered_def)
          next
            case False
            have "{start..<e} \<union> {s'..<snd (fst (last ws))} = {start..<snd (fst (last ws))}"
              using s' e last_ge [OF False] by auto
            then show ?thesis using False ws(3) by (simp add: fw covered_Cons)
          qed
          show "\<forall>x\<in>set (w # ws). start \<le> fst (fst x) \<and>
              snd (fst x) = min (fst (fst x) + cs) (int (length (page_text p)))"
            using ws(4) s'(1) by (auto simp: fw e_def n_def)
          have lt_n: "start + cs < int (length (page_text p))"
            using False e s'(4) by (simp add: n_def)
          have here: "no_blank_window (page_text p) cs ov start \<longleftrightarrow>
              no_blank_window (page_text p) cs ov s'"
            unfolding s'_def
            using no_blank_window_next [of "page_text p" cs ov start, OF _ lt_n]
              no_blank_window_step [of "page_text p" cs start ov, OF nb] by blast
          have there: "snd (fst (last (w # ws))) = n \<longleftrightarrow> ws \<noteq> [] \<and> snd (fst (last ws)) = n"
            using False by (cases "ws = []") (simp_all add: fw)
          show "start < int (length (page_text p)) \<longrightarrow>
              (no_blank_window (page_text p) cs ov start \<longleftrightarrow>
                 w # ws \<noteq> [] \<and> snd (fst (last (w # ws))) = int (length (page_text p)))"
            using ws(5) s'(3) here there by (simp add: n_def)
        qed
      qed
    qed
  qed
qed

lemma words_step_advance:
  assumes "words_step words cs ov start acc = Continue s' acc'"
  shows "start + (cs - ov) \<le> s'"
proof -
  define e where "e = min (start + cs) (int (length words))"
  from assms have "e \<noteq> int (length words)" "s' = max (e - ov) 0"
    unfolding words_step_def Let_def e_def [symmetric] by (simp_all split: if_splits)
  then show ?thesis by (simp add: e_def min_def split: if_splits)
qed

lemma page_step_advance:
  assumes "page_step p cs ov start st = Continue s' st'"
  shows "start + (cs - ov) \<le> s'"
proof -
  define e where "e = min (start + cs) (int (length (page_text p)))"
  from assms have "e \<noteq> int (length (page_text p))" "s' = max 0 (e - ov)"
    unfolding page_step_def Let_def e_def [symmetric] by (simp_all split: if_splits)
  then show ?thesis by (simp add: e_def min_def split: if_splits)
qed

lemma words_loop_terminates:
  assumes ov: "ov < cs"
  shows "\<exists>r. words_loop words cs ov start acc = Some r"
proof (induction "nat (int (length words) - start)" arbitrary: start acc rule: less_induct)
  case less
  show ?case
  proof (cases "start < int (length words)")
    case False
    then show ?thesis by (subst words_loop.simps) simp
  next
    case lt: True
    show ?thesis
    proof (cases "words_step words cs ov start acc")
      case (Break r)
      then show ?thesis using lt by (subst words_loop.simps) simp
    next
      case (Continue s' acc')
      then have "start < s'"
        using ov words_step_advance [of words cs ov start acc s' acc'] by simp
      then have "nat (int (length words) - s') < nat (int (length words) - start)"
        using lt by simp
      from less.hyps [OF this, of acc'] Continue lt show ?thesis
        by (subst words_loop.simps) simp
    qed
  qed
qed

lemma page_loop_terminates:
  assumes ov: "ov < cs"
  shows "\<exists>r. page_loop p cs ov start st = Some r"
proof (induction "nat (int (length (page_text p)) - start)" arbitrary: start st rule: less_induct)
  case less
  show ?case
  proof (cases "start < int (length (page_text p))")
    case False
    then show ?thesis by (subst page_loop.simps) simp
  next
    case lt: True
    show ?thesis
    proof (cases "page_step p cs ov start st")
      case (Break r)
      then show ?thesis using lt by (subst page_loop.simps) simp
    next
      case (Continue s' st')
      then have "start < s'"
        using ov page_step_advance [of p cs ov start st s' st'] by simp
      then have "nat (int (length (page_text p)) - s') < nat (int (length (page_text p)) - start)"
        using lt by simp
      from less.hyps [OF this, of st'] Continue lt show ?thesis
        by (subst page_loop.simps) simp
    qed
  qed
qed

lemma pages_loop_terminates:
  assumes ov: "ov < cs"
  shows "\<exists>r. pages_loop pages cs ov st = Some r"
proof (induction pages arbitrary: st)
  case Nil
  show ?case by simp
next
  case (Cons p ps)
  from page_loop_terminates [OF ov, of p 0 st] obtain st' where
    "page_loop p cs ov 0 st = Some st'" by blast
  with Cons [of st'] show ?case by simp
qed

lemma words_loop_diverges:
  assumes "words_loop words cs ov start acc = Some y"
  shows "\<not> (start = 0 \<and> 0 < cs \<and> cs \<le> ov \<and> cs < int (length words))"
  using assms
proof (induction rule: words_loop.raw_induct [rotated 1, consumes 1])
  case (1 loop words cs ov start acc y)
  show ?case
  proof
    assume c: "start = 0 \<and> 0 < cs \<and> cs \<le> ov \<and> cs < int (length words)"
    then have "\<exists>acc'. words_step words cs ov start acc = Continue 0 acc'"
      by (simp add: words_step_def Let_def min_def max_def)
    then obtain acc' where "words_step words cs ov start acc = Continue 0 acc'" ..
    moreover from c have "start < int (length words)" by linarith
    ultimately have "loop words cs ov 0 acc' = Some y" using 1(2) by simp
    from 1(1) [OF this] c show False by simp
  qed
qed

lemma mk_chunk_ok:
  "\<not> window_blank (page_text p) cs start \<Longrightarrow> e = min (start + cs) (int (length (page_text p))) \<Longrightarrow>
   chunk_text (snd (mk_chunk p k start e)) \<noteq> [] \<and>
   sublist (chunk_text (snd (mk_chunk p k start e))) (page_text p)"
  using sublist_order.order_trans [OF sublist_strip sublist_py_slice, of "page_text p" start e]
  by (simp add: mk_chunk_def window_blank_def)

lemma page_step_chunks:
  assumes "page_step p cs ov start st = r"
    and "r = Break st' \<or> r = Continue s' st'"
  shows "\<exists>ws. fst st' = fst st @ ws \<and>
     (\<forall>x\<in>set ws. chunk_text (snd x) \<noteq> [] \<and> sublist (chunk_text (snd x)) (page_text p))"
proof -
  obtain acc k where st: "st = (acc, k)" by (cases st)
  define e where "e = min (start + cs) (int (length (page_text p)))"
  show ?thesis
  proof (cases "window_blank (page_text p) cs start")
    case True
    then have "page_step p cs ov start st = Break st"
      unfolding st page_step_eq by simp
    with assms have "st' = st" by auto
    then show ?thesis by simp
  next
    case False
    then have "page_step p cs ov start st =
        (if e = int (length (page_text p)) then Break (acc @ [mk_chunk p k start e], Suc k)
         else Continue (max 0 (e - ov)) (acc @ [mk_chunk p k start e], Suc k))"
      unfolding st page_step_eq e_def Let_def by simp
    with assms have "fst st' = acc @ [mk_chunk p k start e]"
      by (cases "e = int (length (page_text p))") auto
    then show ?thesis
      using mk_chunk_ok [OF False e_def, of k] by (simp add: st)
  qed
qed

lemma page_loop_chunks:
  assumes "page_loop p cs ov start st = Some st'"
  shows "\<exists>ws. fst st' = fst st @ ws \<and>
     (\<forall>x\<in>set ws. chunk_text (snd x) \<noteq> [] \<and> sublist (chunk_text (snd x)) (page_text p))"
  using assms
proof (induction rule: page_loop.raw_induct [rotated 1, consumes 1])
  case (1 loop p cs ov start st st')
  show ?case
  proof (cases "start < int (length (page_text p))")
    case False
    with 1(2) have "st' = st" by simp
    then show ?thesis by simp
  next
    case lt: True
    show ?thesis
    proof (cases "page_step p cs ov start st")
      case (Break r)
      with 1(2) lt have "r = st'" by simp
      with Break page_step_chunks [of p cs ov start st "Break st'" st' 0] show ?thesis by simp
    next
      case (Continue s2 st2)
      with 1(2) lt have "loop p cs ov s2 st2 = Some st'" by simp
      from 1(1) [OF this] obtain ws2 where ws2: "fst st' = fst st2 @ ws2"
        "\<forall>x\<in>set ws2. chunk_text (snd x) \<noteq> [] \<and> sublist (chunk_text (snd x)) (page_text p)"
        by blast
      from Continue page_step_chunks [of p cs ov start st "Continue s2 st2" st2 s2]
      obtain ws1 where ws1: "fst st2 = fst st @ ws1"
        "\<forall>x\<in>set ws1. chunk_text (snd x) \<noteq> [] \<and> sublist (chunk_text (snd x)) (page_text p)"
        by auto
      show ?thesis
        using ws1 ws2 by (intro exI [of _ "ws1 @ ws2"]) auto
    qed
  qed
qed

lemma pages_loop_chunks:
  "pages_loop pages cs ov st = Some st' \<Longrightarrow>
   \<exists>ws. fst st' = fst st @ ws \<and>
     (\<forall>x\<in>set ws. chunk_text (snd x) \<noteq> [] \<and>
        (\<exists>p\<in>set pages. sublist (chunk_text (snd x)) (page_text p)))"
proof (induction pages arbitrary: st)
  case Nil
  then show ?case by simp
next
  case (Cons p ps)
  from Cons.prems obtain st1 where st1: "page_loop p cs ov 0 st = Some st1"
    "pages_loop ps cs ov st1 = Some st'"
    by (auto split: option.splits)
  from page_loop_chunks [OF st1(1)] obtain ws1 where ws1: "fst st1 = fst st @ ws1"
    "\<forall>x\<in>set ws1. chunk_text (snd x) \<noteq> [] \<and> sublist (chunk_text (snd x)) (page_text p)"
    by blast
  from Cons.IH [OF st1(2)] obtain ws2 where ws2: "fst st' = fst st1 @ ws2"
    "\<forall>x\<in>set ws2. chunk_text (snd x) \<noteq> [] \<and>
        (\<exists>p\<in>set ps. sublist (chunk_text (snd x)) (page_text p))"
    by blast
  show ?case
    using ws1 ws2 by (intro exI [of _ "ws1 @ ws2"]) auto
qed

lemma py_slice_blank: "\<forall>c\<in>set xs. isspace c \<Longrightarrow> strip (py_slice xs i j) = []"
proof -
  assume a: "\<forall>c\<in>set xs. isspace c"
  have "set (py_slice xs i j) \<subseteq> set xs"
    unfolding py_slice_def Let_def
    using set_take_subset set_drop_subset by fastforce
  with a show ?thesis by (auto simp: strip_Nil_iff)
qed

lemma page_loop_blank:
  assumes "\<forall>c\<in>set (page_text p). isspace c"
  shows "page_loop p cs ov 0 st = Some st"
proof (cases "0 < int (length (page_text p))")
  case False
  then show ?thesis by (subst page_loop.simps) simp
next
  case True
  have "page_step p cs ov 0 st = Break st"
    using py_slice_blank [OF assms] by (simp add: page_step_def Let_def)
  then show ?thesis using True by (subst page_loop.simps) simp
qed

lemma pages_loop_append:
  "pages_loop (ps @ qs) cs ov st =
     (case pages_loop ps cs ov st of None \<Rightarrow> None | Some st' \<Rightarrow> pages_loop qs cs ov st')"
  by (induction ps arbitrary: st) (simp_all split: option.splits)

lemma pages_loop_skip_blank:
  assumes "\<forall>c\<in>set (page_text p). isspace c"
  shows "pages_loop (ps @ p # qs) cs ov st = pages_loop (ps @ qs) cs ov st"
  by (simp add: pages_loop_append page_loop_blank [OF assms] split: option.splits)

section \<open>Claims\<close>

text \<open>
  C4.  For every text and every configuration with \<open>chunk_size > 0\<close> and
  \<open>0 \<le> overlap < chunk_size\<close> the chunking loop terminates: both \<open>while\<close> loops
  return from any start offset, so both chunkers return a chunk list; and every pass
  that goes on moves the start offset forward by at least \<open>chunk_size - overlap \<ge> 1\<close>.
\<close>

theorem chunk_loop_terminates:
  assumes "0 < chunk_size" and "0 \<le> overlap" and "overlap < chunk_size"
  shows "(\<exists>r. words_loop words chunk_size overlap start chunks = Some r) \<and>
         (\<exists>r. page_loop p chunk_size overlap start st = Some r) \<and>
         (\<exists>r. simple_chunk_words text chunk_size overlap = Some (Inr r)) \<and>
         (\<exists>r. simple_chunk_pages pages chunk_size overlap = Some (Inr r)) \<and>
         1 \<le> chunk_size - overlap \<and>
         (\<forall>s' chunks'. words_step words chunk_size overlap start chunks = Continue s' chunks'
             \<longrightarrow> start + (chunk_size - overlap) \<le> s') \<and>
         (\<forall>s' st'. page_step p chunk_size overlap start st = Continue s' st'
             \<longrightarrow> start + (chunk_size - overlap) \<le> s')"
proof -
  let ?cs = chunk_size and ?ov = overlap
  have ov: "?ov < ?cs" by (rule assms(3))
  have a: "\<exists>r. words_loop words ?cs ?ov start chunks = Some r"
    by (rule words_loop_terminates [OF ov])
  have b: "\<exists>r. page_loop p ?cs ?ov start st = Some r"
    by (rule page_loop_terminates [OF ov])
  have c: "\<exists>r. simple_chunk_words text ?cs ?ov = Some (Inr r)"
    using words_loop_terminates [OF ov, of "py_split text" 0 "[]"]
    by (auto simp: simple_chunk_words_def words_run_def)
  have d: "\<exists>r. simple_chunk_pages pages ?cs ?ov = Some (Inr r)"
    using pages_loop_terminates [OF ov, of pages "([], 0)"]
    by (auto simp: simple_chunk_pages_def pages_run_def)
  have e: "1 \<le> ?cs - ?ov" using ov by simp
  show ?thesis
    using a b c d e words_step_advance [of words ?cs ?ov start chunks]
      page_step_advance [of p ?cs ?ov start st] by blast
qed

theorem chunk_loop_terminates_witness:
  "(0::int) < 2 \<and> (0::int) \<le> 1 \<and> (1::int) < 2 \<and>
   (\<exists>r. words_loop [''a'', ''b'', ''c''] 2 1 0 [] = Some r) \<and>
   (\<exists>r. page_loop demo_page 2 1 0 ([], 0) = Some r) \<and>
   (\<exists>r. simple_chunk_words ''a b c'' 2 1 = Some (Inr r)) \<and>
   (\<exists>r. simple_chunk_pages [demo_page] 2 1 = Some (Inr r)) \<and>
   words_step [''a'', ''b'', ''c''] 2 1 0 [] = Continue 1 [((0, 2), ''a b'')]"
proof -
  have s: "words_step [''a'', ''b'', ''c''] 2 1 0 [] = Continue 1 [((0, 2), ''a b'')]"
    by (simp add: words_step_def py_slice_def slice_bound_def strip_def isspace_def Let_def)
  show ?thesis
    using chunk_loop_terminates [of 2 1 "[''a'', ''b'', ''c'']" 0 "[]" demo_page "([], 0)" "''a b c''" "[demo_page]"] s
    by simp
qed

lemma simple_chunk_words_diverges:
  assumes "0 < cs" "cs \<le> ov" "cs < int (length (py_split text))"
  shows "simple_chunk_words text cs ov = None"
proof (cases "words_loop (py_split text) cs ov 0 []")
  case None
  then show ?thesis by (simp add: simple_chunk_words_def words_run_def)
next
  case (Some y)
  from words_loop_diverges [OF Some] assms show ?thesis by simp
qed

lemma page_loop_diverges:
  assumes "page_loop p cs ov start st = Some y"
  shows "\<not> (start = 0 \<and> 0 < cs \<and> cs \<le> ov \<and> cs < int (length (page_text p)) \<and>
            \<not> window_blank (page_text p) cs 0)"
  using assms
proof (induction rule: page_loop.raw_induct [rotated 1, consumes 1])
  case (1 loop p cs ov start st y)
  show ?case
  proof
    assume c: "start = 0 \<and> 0 < cs \<and> cs \<le> ov \<and> cs < int (length (page_text p)) \<and>
            \<not> window_blank (page_text p) cs 0"
    obtain acc k where st: "st = (acc, k)" by (cases st)
    from c have m: "min (0 + cs) (int (length (page_text p))) = cs" "max 0 (cs - ov) = 0"
      "cs \<noteq> int (length (page_text p))" by simp_all
    from c have "page_step p cs ov start st =
        Continue 0 (acc @ [mk_chunk p k 0 cs], Suc k)"
      unfolding st page_step_eq Let_def by (simp add: m)
    moreover from c have "start < int (length (page_text p))" by linarith
    ultimately have "loop p cs ov 0 (acc @ [mk_chunk p k 0 cs], Suc k) = Some y"
      using 1(2) by simp
    from 1(1) [OF this] c show False by simp
  qed
qed

lemma simple_chunk_pages_diverges:
  assumes "0 < cs" "cs \<le> ov" "cs < int (length (page_text p))"
    "\<not> window_blank (page_text p) cs 0"
  shows "simple_chunk_pages (p # ps) cs ov = None"
proof (cases "page_loop p cs ov 0 ([], 0)")
  case None
  then show ?thesis by (simp add: simple_chunk_pages_def pages_run_def)
next
  case (Some y)
  from page_loop_diverges [OF Some] assms show ?thesis by simp
qed

text \<open>
  C3 (as amended).  Neither chunker checks its configuration.  For every input with
  \<open>overlap < chunk_size\<close>, which covers every input with \<open>chunk_size > 0\<close> and
  \<open>0 \<le> overlap < chunk_size\<close> and also a negative overlap or a non-positive chunk size,
  the call returns a chunk list instead of failing.  With \<open>overlap \<ge> chunk_size > 0\<close> the
  call does not return once the input is longer than one chunk (more than \<open>chunk_size\<close>
  words, or more than \<open>chunk_size\<close> characters on a first page whose first window is not
  whitespace-only): every pass starts again at offset 0 and appends a chunk.
\<close>

theorem chunking_without_config_check:
  "(overlap < chunk_size \<longrightarrow>
      (\<exists>r. simple_chunk_words text chunk_size overlap = Some (Inr r)) \<and>
      (\<exists>r. simple_chunk_pages pages chunk_size overlap = Some (Inr r))) \<and>
   (0 < chunk_size \<and> chunk_size \<le> overlap \<and>
    chunk_size < int (length (py_split text)) \<longrightarrow>
      simple_chunk_words text chunk_size overlap = None) \<and>
   (0 < chunk_size \<and> chunk_size \<le> overlap \<and>
    chunk_size < int (length (page_text p)) \<and> \<not> window_blank (page_text p) chunk_size 0 \<longrightarrow>
      simple_chunk_pages (p # pages) chunk_size overlap = None)"
proof (intro conjI impI)
  assume ov: "overlap < chunk_size"
  show "\<exists>r. simple_chunk_words text chunk_size overlap = Some (Inr r)"
    using words_loop_terminates [OF ov, of "py_split text" 0 "[]"]
    by (auto simp: simple_chunk_words_def words_run_def)
  show "\<exists>r. simple_chunk_pages pages chunk_size overlap = Some (Inr r)"
    using pages_loop_terminates [OF ov, of pages "([], 0)"]
    by (auto simp: simple_chunk_pages_def pages_run_def)
next
  assume "0 < chunk_size \<and> chunk_size \<le> overlap \<and>
    chunk_size < int (length (py_split text))"
  then show "simple_chunk_words text chunk_size overlap = None"
    by (intro simple_chunk_words_diverges) simp_all
next
  assume "0 < chunk_size \<and> chunk_size \<le> overlap \<and>
    chunk_size < int (length (page_text p)) \<and> \<not> window_blank (page_text p) chunk_size 0"
  then show "simple_chunk_pages (p # pages) chunk_size overlap = None"
    by (intro simple_chunk_pages_diverges) simp_all
qed

theorem chunking_without_config_check_witness:
  "(200::int) < 800 \<and>
   (\<exists>r. simple_chunk_words ''Cats are mammals.'' 800 200 = Some (Inr r)) \<and>
   (\<exists>r. simple_chunk_pages [demo_page] 800 200 = Some (Inr r)) \<and>
   (- 1::int) < 0 \<and>
   (\<exists>r. simple_chunk_words ''Cats are mammals.'' 0 (- 1) = Some (Inr r)) \<and>
   (\<exists>r. simple_chunk_pages [demo_page] 0 (- 1) = Some (Inr r)) \<and>
   (0::int) < 2 \<and> (2::int) \<le> 2 \<and> 2 < int (length (py_split ''a b c'')) \<and>
   simple_chunk_words ''a b c'' 2 2 = None \<and>
   2 < int (length (page_text demo_page)) \<and> \<not> window_blank (page_text demo_page) 2 0 \<and>
   simple_chunk_pages (demo_page # []) 2 2 = None"
proof -
  have l: "2 < int (length (py_split ''a b c''))" by code_simp
  have n: "2 < int (length (page_text demo_page))" by (simp add: demo_page_def)
  have b: "\<not> window_blank (page_text demo_page) 2 0"
    by (simp add: demo_page_def window_blank_def py_slice_def slice_bound_def strip_def
        isspace_def)
  note A = chunking_without_config_check [of 200 800 "''Cats are mammals.''" "[demo_page]"
      demo_page]
  note B = chunking_without_config_check [of "- 1" 0 "''Cats are mammals.''" "[demo_page]"
      demo_page]
  note C = chunking_without_config_check [of 2 2 "''a b c''" "[]" demo_page]
  from A have a: "(\<exists>r. simple_chunk_words ''Cats are mammals.'' 800 200 = Some (Inr r)) \<and>
      (\<exists>r. simple_chunk_pages [demo_page] 800 200 = Some (Inr r))" by simp
  from B have b': "(\<exists>r. simple_chunk_words ''Cats are mammals.'' 0 (- 1) = Some (Inr r)) \<and>
      (\<exists>r. simple_chunk_pages [demo_page] 0 (- 1) = Some (Inr r))" by simp
  from C l have c: "simple_chunk_words ''a b c'' 2 2 = None" by simp
  from C n b have d: "simple_chunk_pages (demo_page # []) 2 2 = None" by simp
  from a b' c d l n b show ?thesis by simp
qed

text \<open>
  No configuration fails with a configuration error: a negative overlap, a zero chunk
  size and an overlap equal to the chunk size on a short text all yield a list, and
  \<open>chunk_size = overlap = 2\<close> on three words never returns one.
\<close>

theorem chunking_config_error_counterexample:
  "simple_chunk_words ''a b c'' 5 (- 1) = Some (Inr [''a b c'']) \<and>
   simple_chunk_words ''a b c'' 0 (- 1) = Some (Inr []) \<and>
   simple_chunk_words ''a b c'' 5 5 = Some (Inr [''a b c'']) \<and>
   simple_chunk_words ''a b c'' 2 2 = None \<and>
   map_option (map_sum id (map chunk_text)) (simple_chunk_pages [demo_page] 5 (- 1))
     = Some (Inr [''ab cd'']) \<and>
   simple_chunk_pages [demo_page] 0 (- 1) = Some (Inr [])"
proof -
  have a: "simple_chunk_words ''a b c'' 5 (- 1) = Some (Inr [''a b c''])" by code_simp
  have b: "simple_chunk_words ''a b c'' 0 (- 1) = Some (Inr [])" by code_simp
  have c: "simple_chunk_words ''a b c'' 5 5 = Some (Inr [''a b c''])" by code_simp
  have "py_split ''a b c'' = [''a'', ''b'', ''c'']" by code_simp
  then have d: "simple_chunk_words ''a b c'' 2 2 = None"
    by (intro simple_chunk_words_diverges) simp_all
  have e: "map_option (map_sum id (map chunk_text)) (simple_chunk_pages [demo_page] 5 (- 1))
     = Some (Inr [''ab cd''])" by code_simp
  have f: "simple_chunk_pages [demo_page] 0 (- 1) = Some (Inr [])" by code_simp
  from a b c d e f show ?thesis by blast
qed

lemma words_windows_valid:
  assumes ov: "0 \<le> ov" "ov < cs"
  shows "\<exists>ws. words_windows text cs ov = Some ws \<and> spaced cs ov ws \<and>
           covered ws = {0..<int (length (py_split text))}"
proof (cases "py_split text = []")
  case True
  then have "words_loop (py_split text) cs ov 0 [] = Some []"
    by (subst words_loop.simps) simp
  then show ?thesis
    using True by (simp add: words_windows_def words_run_def covered_def)
next
  case False
  have nb: "nonblank_words (py_split text)"
    unfolding nonblank_words_def using py_split_words by blast
  from False have lt: "0 < int (length (py_split text))" by simp
  from words_loop_inv [OF ov nb order_refl lt, of "[]"]
  obtain ws where "words_loop (py_split text) cs ov 0 [] = Some ws"
    "spaced cs ov (map fst ws)" "covered (map fst ws) = {0..<int (length (py_split text))}"
    by auto
  then show ?thesis
    by (simp add: words_windows_def words_run_def)
qed

lemma covered_prefix_full:
  assumes "0 < n"
  shows "{0..<e} = {0..<n} \<longleftrightarrow> e = (n::int)"
proof
  assume eq: "{0..<e} = {0..<n}"
  from assms have "n - 1 \<in> {0..<n}" by simp
  with eq have "n - 1 < e" by auto
  moreover have "n \<notin> {0..<n}" by simp
  with eq have "\<not> n < e" using assms by auto
  ultimately show "e = n" by simp
qed simp

lemma page_windows_valid:
  assumes ov: "0 \<le> ov" "ov < cs"
  shows "\<exists>ws. page_windows p cs ov = Some ws \<and> spaced cs ov ws \<and>
           (ws \<noteq> [] \<longrightarrow> covered ws = {0..<snd (last ws)}) \<and>
           (covered ws = {0..<int (length (page_text p))} \<longleftrightarrow>
              no_blank_window (page_text p) cs ov 0)"
proof (cases "page_text p = []")
  case True
  then have "page_loop p cs ov 0 ([], 0) = Some ([], 0)"
    by (subst page_loop.simps) simp
  moreover have "no_blank_window (page_text p) cs ov 0"
    unfolding no_blank_window_def inspects_def
  proof (intro allI impI)
    fix j :: nat
    assume "0 + int j * (cs - ov) < int (length (page_text p)) \<and>
      (\<forall>i<j. 0 + int i * (cs - ov) + cs < int (length (page_text p)))"
    then have "int j * (cs - ov) < 0" using True by simp
    moreover have "0 \<le> int j * (cs - ov)" using ov by simp
    ultimately show "\<not> window_blank (page_text p) cs (0 + int j * (cs - ov))" by simp
  qed
  ultimately show ?thesis
    using True by (simp add: page_windows_def pages_run_def covered_def)
next
  case False
  then have lt: "0 < int (length (page_text p))" by simp
  from page_loop_inv [OF ov order_refl, of p "[]" 0] lt
  obtain ws where ws: "page_loop p cs ov 0 ([], 0) = Some (ws, length ws)"
    "spaced cs ov (map fst ws)"
    "ws \<noteq> [] \<longrightarrow> covered (map fst ws) = {0..<snd (fst (last ws))}"
    "no_blank_window (page_text p) cs ov 0 \<longleftrightarrow>
       ws \<noteq> [] \<and> snd (fst (last ws)) = int (length (page_text p))"
    by auto
  have pw: "page_windows p cs ov = Some (map fst ws)"
    using ws(1) by (simp add: page_windows_def pages_run_def)
  have full: "covered (map fst ws) = {0..<int (length (page_text p))} \<longleftrightarrow>
      ws \<noteq> [] \<and> snd (fst (last ws)) = int (length (page_text p))"
  proof (cases "ws = []")
    case True
    then show ?thesis using lt by (simp add: covered_def)
  next
    case False
    with ws(3) show ?thesis by (simp add: covered_prefix_full [OF lt])
  qed
  show ?thesis
    unfolding pw using ws(2,3) ws(4) full by (simp add: last_map)
qed

lemma trailing_page_no_blank: "no_blank_window (page_text trailing_page) 3 2 0"
  unfolding no_blank_window_def inspects_def
proof (intro allI impI)
  fix j :: nat
  assume a: "0 + int j * (3 - 2) < int (length (page_text trailing_page)) \<and>
    (\<forall>i<j. 0 + int i * (3 - 2) + 3 < int (length (page_text trailing_page)))"
  have "j \<le> 3"
  proof (rule ccontr)
    assume "\<not> j \<le> 3"
    then have "3 < j" by simp
    with a have "0 + int 3 * (3 - 2) + 3 < int (length (page_text trailing_page))" by blast
    then show False by (simp add: trailing_page_def)
  qed
  then have "j = 0 \<or> j = 1 \<or> j = 2 \<or> j = 3" by arith
  then show "\<not> window_blank (page_text trailing_page) 3 (0 + int j * (3 - 2))"
    by (elim disjE)
      (simp_all add: trailing_page_def window_blank_def py_slice_def slice_bound_def strip_def
         isspace_def)
qed

text \<open>
  C2 (as amended).  For every text and every configuration with
  \<open>0 \<le> overlap < chunk_size\<close>, consecutive chunk windows start exactly
  \<open>chunk_size - overlap\<close> units apart and share exactly \<open>overlap\<close> units.  The windows
  of the word-level chunker cover every word of the text.  The windows of the
  character-level chunker cover a prefix of the page without a gap, and they cover the
  whole page exactly when none of the windows the loop inspects is whitespace-only.
\<close>

theorem chunk_windows_spaced_covering:
  assumes "0 \<le> overlap" and "overlap < chunk_size"
  shows "(\<exists>ws. words_windows text chunk_size overlap = Some ws \<and>
            spaced chunk_size overlap ws \<and>
            covered ws = {0..<int (length (py_split text))}) \<and>
         (\<exists>ws. page_windows p chunk_size overlap = Some ws \<and>
            spaced chunk_size overlap ws \<and>
            (ws \<noteq> [] \<longrightarrow> covered ws = {0..<snd (last ws)}) \<and>
            (covered ws = {0..<int (length (page_text p))} \<longleftrightarrow>
               no_blank_window (page_text p) chunk_size overlap 0))"
  using words_windows_valid [OF assms] page_windows_valid [OF assms] by blast

theorem chunk_windows_spaced_covering_witness:
  "(0::int) \<le> 2 \<and> (2::int) < 3 \<and>
   words_windows ''a b c d'' 3 2 = Some [(0, 3), (1, 4)] \<and>
   spaced 3 2 [(0, 3), (1, 4)] \<and> covered [(0, 3), (1, 4)] = {0..<4} \<and>
   page_windows trailing_page 3 2 = Some [(0, 3), (1, 4), (2, 5), (3, 6)] \<and>
   spaced 3 2 [(0, 3), (1, 4), (2, 5), (3, 6)] \<and>
   no_blank_window (page_text trailing_page) 3 2 0 \<and>
   covered [(0, 3), (1, 4), (2, 5), (3, 6)] = {0..<6}"
proof -
  have w: "words_windows ''a b c d'' 3 2 = Some [(0, 3), (1, 4)]" by code_simp
  have p: "page_windows trailing_page 3 2 = Some [(0, 3), (1, 4), (2, 5), (3, 6)]"
    by code_simp
  have l: "int (length (py_split ''a b c d'')) = 4" by code_simp
  have n: "int (length (page_text trailing_page)) = 6" by (simp add: trailing_page_def)
  show ?thesis
    using chunk_windows_spaced_covering [of 2 3 "''a b c d''" trailing_page]
      trailing_page_no_blank
    unfolding w p l n by simp
qed

text \<open>
  With a negative overlap (which is below \<open>chunk_size\<close>) the word-level windows leave
  word 1 of three uncovered; and with \<open>chunk_size = 2\<close>, \<open>overlap = 0\<close> the character
  loop stops at the whitespace-only window \<open>[2, 4)\<close> of a six-character page, so offset 5
  is in no window.
\<close>

theorem chunk_windows_gap_counterexample:
  "words_windows ''a b c'' 1 (- 1) = Some [(0, 1), (2, 3)] \<and>
   int (length (py_split ''a b c'')) = 3 \<and> 1 \<notin> covered [(0, 1), (2, 3)] \<and>
   page_windows gap_page 2 0 = Some [(0, 2)] \<and>
   int (length (page_text gap_page)) = 6 \<and> 5 \<notin> covered [(0, 2)]"
proof -
  have a: "words_windows ''a b c'' 1 (- 1) = Some [(0, 1), (2, 3)]" by code_simp
  have b: "int (length (py_split ''a b c'')) = 3" by code_simp
  have c: "page_windows gap_page 2 0 = Some [(0, 2)]" by code_simp
  have d: "int (length (page_text gap_page)) = 6" by (simp add: gap_page_def)
  have e: "1 \<notin> covered [(0, 1), (2, 3)]" "5 \<notin> covered [(0, 2)]"
    by (simp_all add: covered_def)
  from a b c d e show ?thesis by blast
qed

lemma strip_Nil [simp]: "strip [] = []"
  by (simp add: strip_def)

lemma word_slice_ok:
  assumes "0 < sz" "0 \<le> i" "i < int (length (py_split t))"
  shows "str_join '' '' (py_slice (py_split t) i (i + sz)) \<noteq> [] \<and>
         word_run_of (str_join '' '' (py_slice (py_split t) i (i + sz))) t"
proof -
  let ?ws = "py_slice (py_split t) i (i + sz)"
  have ne: "?ws \<noteq> []"
    using assms by (auto simp: py_slice_def slice_bound_def Let_def min_def)
  have sub: "sublist ?ws (py_split t)" by (rule sublist_py_slice)
  then have "set ?ws \<subseteq> set (py_split t)" by (rule set_mono_sublist)
  then have "\<forall>w\<in>set ?ws. w \<noteq> [] \<and> (\<forall>c\<in>set w. \<not> isspace c)"
    using py_split_words by blast
  from str_join_nonblank [OF ne this, of "'' ''"] have "str_join '' '' ?ws \<noteq> []"
    by auto
  then show ?thesis using ne sub unfolding word_run_of_def by blast
qed

lemma py_range0_elems:
  "py_range0 n sz = Inr starts \<Longrightarrow> i \<in> set starts \<Longrightarrow> 0 < sz \<and> 0 \<le> i \<and> i < n"
  by (auto simp: py_range0_def split: if_splits)

lemma chunk_texts_inv:
  "chunk_texts texts sz acc = Inr r \<Longrightarrow>
   \<exists>new. r = acc @ new \<and> (\<forall>c\<in>set new. c \<noteq> [] \<and> (\<exists>t\<in>set texts. word_run_of c t))"
proof (induction texts arbitrary: acc)
  case Nil
  then show ?case by simp
next
  case (Cons t ts)
  from Cons.prems obtain starts where st: "py_range0 (int (length (py_split t))) sz = Inr starts"
    and rest: "chunk_texts ts sz
        (acc @ map (\<lambda>i. str_join '' '' (py_slice (py_split t) i (i + sz))) starts) = Inr r"
    by (auto simp: Let_def split: sum.splits)
  let ?new1 = "map (\<lambda>i. str_join '' '' (py_slice (py_split t) i (i + sz))) starts"
  from Cons.IH [OF rest] obtain new2 where n2: "r = (acc @ ?new1) @ new2"
    "\<forall>c\<in>set new2. c \<noteq> [] \<and> (\<exists>t\<in>set ts. word_run_of c t)" by blast
  have n1: "\<forall>c\<in>set ?new1. c \<noteq> [] \<and> word_run_of c t"
  proof
    fix c assume "c \<in> set ?new1"
    then obtain i where i: "i \<in> set starts"
      "c = str_join '' '' (py_slice (py_split t) i (i + sz))" by auto
    from py_range0_elems [OF st i(1)] word_slice_ok [of sz i t] i(2)
    show "c \<noteq> [] \<and> word_run_of c t" by simp
  qed
  show ?case
    using n1 n2 by (intro exI [of _ "?new1 @ new2"]) auto
qed

lemma chunk_texts_append:
  "chunk_texts (ts @ us) sz acc =
     (case chunk_texts ts sz acc of Inl e \<Rightarrow> Inl e | Inr r \<Rightarrow> chunk_texts us sz r)"
  by (induction ts arbitrary: acc) (simp_all add: Let_def split: sum.splits)

lemma chunk_texts_blank:
  assumes "\<forall>c\<in>set t. isspace c" "sz \<noteq> 0"
  shows "chunk_texts (t # us) sz acc = chunk_texts us sz acc"
proof -
  have "py_split t = []" using assms(1) by (simp add: py_split_def split_from_blank)
  then show ?thesis using assms(2) by (simp add: py_range0_def)
qed

text \<open>
  C7 (as amended).  Every chunk produced at build time has non-empty text, and an empty
  or whitespace-only page yields no chunks at all.  A chunk of the character-level
  chunker \<open>pdf_loader.simple_chunk\<close> is a contiguous substring of the text of some page.
  A chunk of the word-level \<open>RAGEngine.chunk\<close> is the single-space join of a contiguous
  run of the words of some page.
\<close>

theorem chunks_nonempty_from_pages:
  "(simple_chunk_pages pages chunk_size overlap = Some (Inr chunks) \<longrightarrow>
      (\<forall>c\<in>set chunks. chunk_text c \<noteq> [] \<and>
         (\<exists>p\<in>set pages. sublist (chunk_text c) (page_text p)))) \<and>
   ((\<forall>c\<in>set (page_text p). isspace c) \<longrightarrow>
      simple_chunk_pages (ps @ p # qs) chunk_size overlap =
      simple_chunk_pages (ps @ qs) chunk_size overlap) \<and>
   (RAGEngine_chunk texts sz = Inr word_chunks \<longrightarrow>
      (\<forall>c\<in>set word_chunks. c \<noteq> [] \<and> (\<exists>t\<in>set texts. word_run_of c t))) \<and>
   ((\<forall>c\<in>set t. isspace c) \<and> sz \<noteq> 0 \<longrightarrow>
      RAGEngine_chunk (ts @ t # us) sz = RAGEngine_chunk (ts @ us) sz)"
proof (intro conjI impI)
  assume "simple_chunk_pages pages chunk_size overlap = Some (Inr chunks)"
  then obtain st where st: "pages_loop pages chunk_size overlap ([], 0) = Some st"
    "chunks = map snd (fst st)"
    by (auto simp: simple_chunk_pages_def pages_run_def)
  from pages_loop_chunks [OF st(1)] st(2)
  show "\<forall>c\<in>set chunks. chunk_text c \<noteq> [] \<and>
         (\<exists>p\<in>set pages. sublist (chunk_text c) (page_text p))" by auto
next
  assume "\<forall>c\<in>set (page_text p). isspace c"
  then show "simple_chunk_pages (ps @ p # qs) chunk_size overlap =
      simple_chunk_pages (ps @ qs) chunk_size overlap"
    by (simp add: simple_chunk_pages_def pages_run_def pages_loop_skip_blank)
next
  assume "RAGEngine_chunk texts sz = Inr word_chunks"
  from chunk_texts_inv [OF this [unfolded RAGEngine_chunk_def]]
  show "\<forall>c\<in>set word_chunks. c \<noteq> [] \<and> (\<exists>t\<in>set texts. word_run_of c t)" by simp
next
  assume "(\<forall>c\<in>set t. isspace c) \<and> sz \<noteq> 0"
  then show "RAGEngine_chunk (ts @ t # us) sz = RAGEngine_chunk (ts @ us) sz"
    by (simp add: RAGEngine_chunk_def chunk_texts_append chunk_texts_blank
        del: chunk_texts.simps split: sum.splits)
qed

theorem chunks_nonempty_from_pages_witness:
  "simple_chunk_pages [demo_page, blank_page] 3 1 = Some (Inr demo_chunks) \<and>
   list_all (\<lambda>c. chunk_text c \<noteq> [] \<and>
      (\<exists>p\<in>set [demo_page, blank_page]. sublist (chunk_text c) (page_text p))) demo_chunks \<and>
   list_all isspace (page_text blank_page) \<and>
   simple_chunk_pages ([demo_page] @ blank_page # []) 3 1 =
     simple_chunk_pages ([demo_page] @ []) 3 1 \<and>
   RAGEngine_chunk [''a b c'', '' \<newline>  ''] 2 = Inr [''a b'', ''c''] \<and>
   list_all (\<lambda>c. c \<noteq> [] \<and>
      (\<exists>t\<in>set [''a b c'', '' \<newline>  '']. word_run_of c t)) [''a b'', ''c''] \<and>
   list_all isspace '' \<newline>  '' \<and> (2::int) \<noteq> 0 \<and>
   RAGEngine_chunk ([''a b c''] @ '' \<newline>  '' # []) 2 = RAGEngine_chunk ([''a b c''] @ []) 2"
proof -
  have c: "simple_chunk_pages [demo_page, blank_page] 3 1 = Some (Inr demo_chunks)"
    by code_simp
  have b: "\<forall>c\<in>set (page_text blank_page). isspace c"
    by (simp add: blank_page_def isspace_def)
  have b': "\<forall>c\<in>set '' \<newline>  ''. isspace c" by (simp add: isspace_def)
  have r: "RAGEngine_chunk [''a b c'', '' \<newline>  ''] 2 = Inr [''a b'', ''c'']" by code_simp
  have z: "(2::int) \<noteq> 0" by simp
  note T = chunks_nonempty_from_pages [of "[demo_page, blank_page]" 3 1 demo_chunks blank_page
      "[demo_page]" "[]" "[''a b c'', '' \<newline>  '']" 2 "[''a b'', ''c'']" "'' \<newline>  ''"
      "[''a b c'']" "[]"]
  from T have t1: "\<forall>c\<in>set demo_chunks. chunk_text c \<noteq> [] \<and>
      (\<exists>p\<in>set [demo_page, blank_page]. sublist (chunk_text c) (page_text p))"
    using c by (elim conjE) (erule mp)
  from T have t2: "simple_chunk_pages ([demo_page] @ blank_page # []) 3 1 =
     simple_chunk_pages ([demo_page] @ []) 3 1"
    using b by (elim conjE) (erule mp)
  from T have t3: "\<forall>c\<in>set [''a b'', ''c'']. c \<noteq> [] \<and>
      (\<exists>t\<in>set [''a b c'', '' \<newline>  '']. word_run_of c t)"
    using r by (elim conjE) (erule mp)
  from T have t4: "RAGEngine_chunk ([''a b c''] @ '' \<newline>  '' # []) 2 =
      RAGEngine_chunk ([''a b c''] @ []) 2"
    using b' z by (elim conjE) (erule mp, rule conjI)
  from c t1 b t2 r t3 b' z t4 show ?thesis
    unfolding list_all_iff by (intro conjI)
qed

text \<open>
  The word-level chunk need not be a substring of the page: the words of \<open>a\<newline>b\<close> are
  joined with a space.
\<close>

theorem word_chunk_not_substring_counterexample:
  "RAGEngine_chunk [''a\<newline>b''] 500 = Inr [''a b''] \<and> \<not> sublist ''a b'' ''a\<newline>b''"
proof -
  have "RAGEngine_chunk [''a\<newline>b''] 500 = Inr [''a b'']" by code_simp
  moreover have "\<not> sublist ''a b'' ''a\<newline>b''" by code_simp
  ultimately show ?thesis by blast
qed

lemma pets_load: "load_pdfs_from_folder demo_fs ''/docs'' = Inr pets_pages"
  by code_simp

lemma pets_chunking: "simple_chunk_pages pets_pages 800 100 = Some (Inr pets_chunks)"
  by code_simp

lemma pets_build:
  "ar_build_index demo_fs demo_chunk_encode empty_researcher ''pets'' ''/docs''
     = Some (Inr (), pets_researcher)"
proof -
  have v: "vs_build demo_chunk_encode pets_chunks = Inr pets_store"
    by code_simp
  have ne: "pets_chunks \<noteq> []" "pets_pages \<noteq> []"
    by (simp_all add: pets_chunks_def pets_pages_def)
  show ?thesis
    by (simp add: ar_build_index_def pets_load pets_chunking v ne
        empty_researcher_def pets_researcher_def)
qed

text \<open>
  C10.  Every call of \<open>AutoResearcher.answer\<close> raises, whatever the arguments and the
  registry are: \<open>ValueError\<close> when the name is not registered, and otherwise
  \<open>AttributeError\<close> for \<open>self.vector_store\<close>, an attribute that is never defined.  No call
  returns an answer text, also when the named index exists.
\<close>

theorem ar_answer_always_raises:
  "(\<exists>e. ar_answer self q index_name = Inl e) \<and>
   (index_name \<notin> dom (ar_vectorstores self) \<longrightarrow>
      ar_answer self q index_name = Inl (ValueError ''Index not found.'')) \<and>
   (index_name \<in> dom (ar_vectorstores self) \<longrightarrow>
      ar_answer self q index_name = Inl (AttributeError ''vector_store''))"
proof -
  have "getattr ''vector_store'' = Inl (AttributeError ''vector_store'')"
    by (simp add: getattr_def AutoResearcher_attributes_def)
  then show ?thesis by (simp add: ar_answer_def)
qed

theorem ar_answer_always_raises_witness:
  "ar_build_index demo_fs demo_chunk_encode empty_researcher ''pets'' ''/docs''
     = Some (Inr (), pets_researcher) \<and>
   ''pets'' \<in> dom (ar_vectorstores pets_researcher) \<and>
   ar_answer pets_researcher ''What are cats?'' ''pets'' = Inl (AttributeError ''vector_store'') \<and>
   ''birds'' \<notin> dom (ar_vectorstores pets_researcher) \<and>
   ar_answer pets_researcher ''What are cats?'' ''birds'' = Inl (ValueError ''Index not found.'')"
proof -
  have d: "''pets'' \<in> dom (ar_vectorstores pets_researcher)"
    "''birds'' \<notin> dom (ar_vectorstores pets_researcher)"
    by (simp_all add: pets_researcher_def)
  from ar_answer_always_raises [of pets_researcher "''What are cats?''" "''pets''"]
    ar_answer_always_raises [of pets_researcher "''What are cats?''" "''birds''"] d pets_build
  show ?thesis by blast
qed


lemma answer_eq:
  "query encode dist indexes name question top_k = Inr (context, selected) \<Longrightarrow>
   answer encode dist post indexes name question top_k =
     Inr (call_ollama post (answer_prompt question context) OLLAMA_MODEL_NAME)"
  by (simp add: answer_def call_llm_def)

text \<open>
  C8.  Every failure of the generation backend on the answer path, whether \<open>requests.post\<close>
  raises (timeout, network), the status is an error (quota, HTTP error) or the body
  cannot be read, is caught in \<open>call_ollama\<close> and becomes the text
  \<open>[OLLAMA ERROR] \<dots>\<close>; \<open>RAGEngine.answer\<close> returns that text whenever retrieval
  succeeded, and never propagates the backend's exception.
\<close>

theorem answer_embeds_backend_failure:
  "(post model prompt = Inl msg \<longrightarrow>
      call_ollama post prompt model = ''[OLLAMA ERROR] '' @ msg) \<and>
   (post model prompt = Inr r \<and> status_error r = Some msg \<longrightarrow>
      call_ollama post prompt model = ''[OLLAMA ERROR] '' @ msg) \<and>
   (post model prompt = Inr r \<and> status_error r = None \<and> body r = BodyRaises msg \<longrightarrow>
      call_ollama post prompt model = ''[OLLAMA ERROR] '' @ msg) \<and>
   (query encode dist indexes name question top_k = Inr (context, selected) \<longrightarrow>
      answer encode dist post indexes name question top_k =
        Inr (call_ollama post (answer_prompt question context) OLLAMA_MODEL_NAME))"
  by (simp add: call_ollama_def ollama_try_def answer_eq)

theorem answer_embeds_backend_failure_witness:
  "failing_backend OLLAMA_MODEL_NAME (answer_prompt ''What are cats?'' ''Cats are mammals.'')
     = Inl ''HTTPConnectionPool: Read timed out.'' \<and>
   query length demo_dist pets_registry ''pets'' ''What are cats?'' 1
     = Inr (''Cats are mammals.'', [''Cats are mammals.'']) \<and>
   answer length demo_dist failing_backend pets_registry ''pets'' ''What are cats?'' 1
     = Inr (''[OLLAMA ERROR] HTTPConnectionPool: Read timed out.'') \<and>
   http_500_backend OLLAMA_MODEL_NAME ''p''
     = Inr \<lparr>status_error = Some ''500 Server Error'', body = BodyObject None\<rparr> \<and>
   call_ollama http_500_backend ''p'' OLLAMA_MODEL_NAME = ''[OLLAMA ERROR] 500 Server Error''"
proof -
  let ?p = "answer_prompt ''What are cats?'' ''Cats are mammals.''"
  have f: "failing_backend OLLAMA_MODEL_NAME ?p = Inl ''HTTPConnectionPool: Read timed out.''"
    by (simp add: failing_backend_def)
  have q: "query length demo_dist pets_registry ''pets'' ''What are cats?'' 1
     = Inr (''Cats are mammals.'', [''Cats are mammals.''])"
    by code_simp
  have h: "http_500_backend OLLAMA_MODEL_NAME ''p''
     = Inr \<lparr>status_error = Some ''500 Server Error'', body = BodyObject None\<rparr>"
    by (simp add: http_500_backend_def)
  note T = answer_embeds_backend_failure [of failing_backend OLLAMA_MODEL_NAME ?p
      "''HTTPConnectionPool: Read timed out.''" undefined length demo_dist pets_registry
      "''pets''" "''What are cats?''" 1 "''Cats are mammals.''" "[''Cats are mammals.'']"]
  note U = answer_embeds_backend_failure [of http_500_backend OLLAMA_MODEL_NAME "''p''"
      "''500 Server Error''" "\<lparr>status_error = Some ''500 Server Error'', body = BodyObject None\<rparr>"
      length demo_dist pets_registry "''pets''" "''What are cats?''" 1 "''Cats are mammals.''"
      "[''Cats are mammals.'']"]
  from T f have c: "call_ollama failing_backend ?p OLLAMA_MODEL_NAME
      = ''[OLLAMA ERROR] '' @ ''HTTPConnectionPool: Read timed out.''" by blast
  from T q have a: "answer length demo_dist failing_backend pets_registry ''pets''
      ''What are cats?'' 1 = Inr (call_ollama failing_backend ?p OLLAMA_MODEL_NAME)" by blast
  from U h have u: "call_ollama http_500_backend ''p'' OLLAMA_MODEL_NAME
      = ''[OLLAMA ERROR] '' @ ''500 Server Error''" by simp
  from f q h a c u show ?thesis by simp
qed




text \<open>
  \<open>RAGEngine.query\<close> drops the padding labels: on a collection whose index and chunk
  list have the same length it returns exactly \<open>min(top_k, n)\<close> chunks, nearest first.
\<close>

lemma faiss_labels_filter:
  assumes "set best \<subseteq> {0..<n}"
  shows "filter (\<lambda>idx. 0 \<le> idx \<and> idx < int n) (map int best @ replicate m (- 1)) = map int best"
proof -
  have "filter (\<lambda>idx. 0 \<le> idx \<and> idx < int n) (map int best) = map int best"
    using assms by (intro filter_True) auto
  moreover have "filter (\<lambda>idx. 0 \<le> idx \<and> idx < int n) (replicate m (- 1)) = []"
    by (induction m) simp_all
  ultimately show ?thesis by simp
qed

lemma query_returns_nearest:
  assumes reg: "indexes name = Some data"
    and len: "length (col_index data) = length (col_chunks data)"
    and k: "1 \<le> top_k"
  shows "\<exists>ranked. query encode dist indexes name question top_k =
           Inr (str_join context_sep (map (\<lambda>i. col_chunks data ! i) ranked),
                map (\<lambda>i. col_chunks data ! i) ranked) \<and>
         length ranked = min (nat top_k) (length (col_chunks data)) \<and>
         sorted (map (\<lambda>i. dist (encode question) (col_index data ! i)) ranked) \<and>
         distinct ranked \<and> set ranked \<subseteq> {0..<length (col_chunks data)}"
proof -
  let ?f = "\<lambda>i. dist (encode question) (col_index data ! i)"
  let ?n = "length (col_chunks data)"
  define best where "best = take (nat top_k) (sort_key ?f [0..<?n])"
  have s: "set best \<subseteq> {0..<?n}"
    unfolding best_def using set_take_subset [of "nat top_k" "sort_key ?f [0..<?n]"] by auto
  define labels where "labels = map int best @ replicate (nat top_k - length best) (- 1)"
  have f: "faiss_search dist (col_index data) (encode question) top_k = Inr labels"
    using k by (simp add: faiss_search_def len best_def labels_def Let_def)
  have "filter (\<lambda>idx. 0 \<le> idx \<and> idx < int ?n) labels = map int best"
    unfolding labels_def by (rule faiss_labels_filter [OF s])
  then have sel: "map (\<lambda>idx. col_chunks data ! nat idx)
      (filter (\<lambda>idx. 0 \<le> idx \<and> idx < int ?n) labels) = map (\<lambda>i. col_chunks data ! i) best"
    by (simp add: comp_def)
  have q: "query encode dist indexes name question top_k =
      Inr (str_join context_sep (map (\<lambda>i. col_chunks data ! i) best),
           map (\<lambda>i. col_chunks data ! i) best)"
    by (simp add: query_def reg f sel Let_def)
  have l: "length best = min (nat top_k) ?n"
    by (simp add: best_def min.commute)
  have "sorted (map ?f (sort_key ?f [0..<?n]))" by (rule sorted_sort_key)
  then have so: "sorted (map ?f best)"
    unfolding best_def take_map [symmetric] by (rule sorted_wrt_take)
  have d: "distinct best"
    unfolding best_def by (intro distinct_take) simp
  from q l so d s show ?thesis by blast
qed

text \<open>
  C1.  \<open>VectorStore.search\<close> does not drop them: \<open>self.texts[-1]\<close> is the last chunk, so
  a search for 5 results in a store of 2 chunks returns 5 results, the last chunk four
  times, where the claim requires exactly \<open>min(5, 2) = 2\<close>.
\<close>

theorem vector_store_search_pads:
  "vs_build demo_chunk_encode pets_chunks = Inr pets_store \<and>
   map_sum id (map chunk_text) (vs_search length demo_dist pets_store ''What are cats?'' 5) =
     Inr [''Cats are mammals.'', ''Dogs are mammals too.'', ''Dogs are mammals too.'',
          ''Dogs are mammals too.'', ''Dogs are mammals too.'']"
proof -
  have "vs_build demo_chunk_encode pets_chunks = Inr pets_store" by code_simp
  moreover have "map_sum id (map chunk_text)
      (vs_search length demo_dist pets_store ''What are cats?'' 5) =
     Inr [''Cats are mammals.'', ''Dogs are mammals too.'', ''Dogs are mammals too.'',
          ''Dogs are mammals too.'', ''Dogs are mammals too.'']" by code_simp
  ultimately show ?thesis by blast
qed

lemma simple_chunk_words_default: "\<exists>r. simple_chunk_words text 800 200 = Some (Inr r)"
  using words_loop_terminates [of 200 800 "py_split text" 0 "[]"]
  by (auto simp: simple_chunk_words_def words_run_def)

lemma simple_chunk_pages_default: "\<exists>r. simple_chunk_pages pages 800 100 = Some (Inr r)"
  using pages_loop_terminates [of 100 800 pages "([], 0)"]
  by (auto simp: simple_chunk_pages_def pages_run_def)

lemma gather_chunks_total: "\<exists>r. gather_chunks env paths acc = Some r"
proof (induction paths arbitrary: acc)
  case Nil
  show ?case by simp
next
  case (Cons p ps)
  show ?case
  proof (cases "load_pdf_text env p")
    case (Inl e)
    then show ?thesis by simp
  next
    case (Inr t)
    from simple_chunk_words_default [of t] obtain r where
      "simple_chunk_words t 800 200 = Some (Inr r)" ..
    with Inr Cons [of "acc @ r"] show ?thesis by simp
  qed
qed

lemma build_index_total: "\<exists>r. build_index env encode indexes name folder = Some r"
proof -
  obtain g where "gather_chunks env (rag_list_pdfs env folder) [] = Some g"
    using gather_chunks_total by blast
  then show ?thesis
    by (cases g) (simp_all add: build_index_def Let_def)
qed

lemma ar_build_index_total: "\<exists>r. ar_build_index env cencode self name folder = Some r"
proof (cases "load_pdfs_from_folder env folder")
  case (Inl e)
  then show ?thesis by (simp add: ar_build_index_def)
next
  case (Inr pages)
  from simple_chunk_pages_default [of pages] obtain cs where
    "simple_chunk_pages pages 800 100 = Some (Inr cs)" ..
  with Inr show ?thesis
    by (cases "vs_build cencode cs") (simp_all add: ar_build_index_def)
qed

lemma build_index_failure:
  "build_index env encode indexes name folder = Some (Inl e, indexes') \<Longrightarrow> indexes' = indexes"
  by (auto simp: build_index_def Let_def split: if_splits option.splits sum.splits)

lemma ar_build_index_failure:
  "ar_build_index env cencode self name folder = Some (Inl e, self') \<Longrightarrow> self' = self"
  by (auto simp: ar_build_index_def split: if_splits option.splits sum.splits)

text \<open>
  C5.  Whenever \<open>build_index\<close> fails, the registry is exactly what it was before the
  call, in \<open>RAGEngine\<close> and in \<open>AutoResearcher\<close> alike, and every call returns.  A
  document set without pages fails with one \<open>ValueError\<close> (\<open>No PDFs found in folder\<close>,
  \<open>No PDF pages extracted.\<close>), a chunking that yields nothing with another
  (\<open>No text chunks extracted from PDFs.\<close>): the spec's \<open>EmptyCorpusError\<close> and
  \<open>EmptyChunkSetError\<close>, told apart by their messages.
\<close>

theorem build_failure_keeps_registry:
  "(build_index env encode indexes name folder = Some (Inl e, indexes') \<longrightarrow> indexes' = indexes) \<and>
   (ar_build_index env cencode self name folder = Some (Inl e, self') \<longrightarrow> self' = self) \<and>
   (\<exists>r. build_index env encode indexes name folder = Some r) \<and>
   (\<exists>r. ar_build_index env cencode self name folder = Some r) \<and>
   (isdir env folder \<and> rag_list_pdfs env folder = [] \<longrightarrow>
      build_index env encode indexes name folder =
        Some (Inl (ValueError (''No PDFs found in folder: '' @ folder)), indexes)) \<and>
   (load_pdfs_from_folder env folder = Inr [] \<longrightarrow>
      ar_build_index env cencode self name folder =
        Some (Inl (ValueError ''No PDF pages extracted.''), self)) \<and>
   (isdir env folder \<and> rag_list_pdfs env folder \<noteq> [] \<and>
    gather_chunks env (rag_list_pdfs env folder) [] = Some (Inr []) \<longrightarrow>
      build_index env encode indexes name folder =
        Some (Inl (ValueError ''No text chunks extracted from PDFs.''), indexes)) \<and>
   ValueError (''No PDFs found in folder: '' @ folder)
     \<noteq> ValueError ''No text chunks extracted from PDFs.'' \<and>
   ValueError ''No PDF pages extracted.'' \<noteq> ValueError ''No text chunks created.''"
proof (intro conjI impI)
  assume "build_index env encode indexes name folder = Some (Inl e, indexes')"
  then show "indexes' = indexes" by (rule build_index_failure)
next
  assume "ar_build_index env cencode self name folder = Some (Inl e, self')"
  then show "self' = self" by (rule ar_build_index_failure)
next
  show "\<exists>r. build_index env encode indexes name folder = Some r"
    by (rule build_index_total)
  show "\<exists>r. ar_build_index env cencode self name folder = Some r"
    by (rule ar_build_index_total)
next
  assume "isdir env folder \<and> rag_list_pdfs env folder = []"
  then show "build_index env encode indexes name folder =
        Some (Inl (ValueError (''No PDFs found in folder: '' @ folder)), indexes)"
    by (simp add: build_index_def)
next
  assume "load_pdfs_from_folder env folder = Inr []"
  then show "ar_build_index env cencode self name folder =
        Some (Inl (ValueError ''No PDF pages extracted.''), self)"
    by (simp add: ar_build_index_def)
next
  assume "isdir env folder \<and> rag_list_pdfs env folder \<noteq> [] \<and>
    gather_chunks env (rag_list_pdfs env folder) [] = Some (Inr [])"
  then show "build_index env encode indexes name folder =
        Some (Inl (ValueError ''No text chunks extracted from PDFs.''), indexes)"
    by (simp add: build_index_def)
next
  show "ValueError (''No PDFs found in folder: '' @ folder)
     \<noteq> ValueError ''No text chunks extracted from PDFs.''" by simp
  show "ValueError ''No PDF pages extracted.'' \<noteq> ValueError ''No text chunks created.''"
    by simp
qed

theorem build_failure_keeps_registry_witness:
  "isdir demo_fs ''/empty'' \<and> rag_list_pdfs demo_fs ''/empty'' = [] \<and>
   build_index demo_fs length pets_registry ''pets'' ''/empty'' =
     Some (Inl (ValueError (''No PDFs found in folder: '' @ ''/empty'')), pets_registry) \<and>
   load_pdfs_from_folder blank_fs ''/docs'' = Inr [] \<and>
   ar_build_index blank_fs demo_chunk_encode pets_researcher ''pets'' ''/docs'' =
     Some (Inl (ValueError ''No PDF pages extracted.''), pets_researcher) \<and>
   isdir blank_fs ''/docs'' \<and> rag_list_pdfs blank_fs ''/docs'' \<noteq> [] \<and>
   gather_chunks blank_fs (rag_list_pdfs blank_fs ''/docs'') [] = Some (Inr []) \<and>
   build_index blank_fs length pets_registry ''pets'' ''/docs'' =
     Some (Inl (ValueError ''No text chunks extracted from PDFs.''), pets_registry)"
proof -
  have a: "isdir demo_fs ''/empty'' \<and> rag_list_pdfs demo_fs ''/empty'' = []"
    by code_simp
  have b: "load_pdfs_from_folder blank_fs ''/docs'' = Inr []" by code_simp
  have c: "isdir blank_fs ''/docs'' \<and> rag_list_pdfs blank_fs ''/docs'' \<noteq> [] \<and>
     gather_chunks blank_fs (rag_list_pdfs blank_fs ''/docs'') [] = Some (Inr [])"
    by code_simp
  note T = build_failure_keeps_registry [of demo_fs length pets_registry "''pets''" "''/empty''"
      "ValueError (''No PDFs found in folder: '' @ ''/empty'')" pets_registry
      demo_chunk_encode pets_researcher pets_researcher]
  note U = build_failure_keeps_registry [of blank_fs length pets_registry "''pets''" "''/docs''"
      "ValueError ''No PDF pages extracted.''" pets_registry
      demo_chunk_encode pets_researcher pets_researcher]
  from T a have t: "build_index demo_fs length pets_registry ''pets'' ''/empty'' =
     Some (Inl (ValueError (''No PDFs found in folder: '' @ ''/empty'')), pets_registry)"
    by blast
  from U b have u: "ar_build_index blank_fs demo_chunk_encode pets_researcher ''pets'' ''/docs'' =
     Some (Inl (ValueError ''No PDF pages extracted.''), pets_researcher)" by blast
  from U c have v: "build_index blank_fs length pets_registry ''pets'' ''/docs'' =
     Some (Inl (ValueError ''No text chunks extracted from PDFs.''), pets_registry)" by blast
  from a b c t u v show ?thesis by blast
qed











end
